theory Spec2Isabelle
  imports Main "HOL-Library.Sublist" "HOL-Library.Multiset" "HOL-Library.Char_ord"
    "HOL-Library.List_Lexorder"
begin

section \<open>Values, records and exceptions\<close>

text \<open>
  The program of \<^verbatim>\<open>src/main.py\<close> handles JSON objects decoded into Python
  dictionaries. The fragment of JSON values modelled here is the one of the data model:
  \<^verbatim>\<open>None\<close>, integers and strings. A dictionary is a partial map from keys to values.
  The calls to \<^verbatim>\<open>logging\<close> write to the log only and are left out.
\<close>

datatype json = JNull | JInt int | JStr string

type_synonym dict = "string \<rightharpoonup> json"

text \<open>
  The exceptions that can travel through the program. \<open>ClientError\<close> and
  \<open>TimeoutError\<close> stand for what one HTTP attempt raises; \<open>RetryError\<close> is the
  exception of the retrying decorator, which wraps the exception of the last attempt.
  \<open>NotModelled\<close> is not a Python exception: it marks the one operation whose result
  is outside the fragment (a string with a conversion directive on the left of \<^verbatim>\<open>%\<close>).
\<close>

datatype py_error = TypeError | KeyError | ValueError | ZeroDivisionError
  | ClientError string | TimeoutError | RetryError py_error | NotModelled

type_synonym response = "py_error + dict list"

text \<open>\<^verbatim>\<open>d.get(k)\<close> and \<^verbatim>\<open>d[k]\<close>.\<close>

definition dict_get :: "dict \<Rightarrow> string \<Rightarrow> json" where
  "dict_get d k = (case d k of None \<Rightarrow> JNull | Some v \<Rightarrow> v)"

definition subscript :: "dict \<Rightarrow> string \<Rightarrow> py_error + json" where
  "subscript d k = (case d k of None \<Rightarrow> Inl KeyError | Some v \<Rightarrow> Inr v)"

text \<open>
  \<^verbatim>\<open>a % b\<close> with an integer on the right. On integers Python's remainder has the sign
  of the divisor, as \<open>mod\<close> on \<open>int\<close> has. On a string it is printf-style formatting,
  which raises \<^verbatim>\<open>TypeError\<close> when the string has no directive to consume the argument.
\<close>

fun py_mod :: "json \<Rightarrow> int \<Rightarrow> py_error + json" where
  "py_mod (JInt a) b = (if b = 0 then Inl ZeroDivisionError else Inr (JInt (a mod b)))"
| "py_mod JNull b = Inl TypeError"
| "py_mod (JStr s) b = (if CHR ''%'' \<in> set s then Inl NotModelled else Inl TypeError)"

text \<open>
  \<^verbatim>\<open>a < b\<close>: integers compare with integers, strings with strings (lexicographically,
  by code point); every other pair raises \<^verbatim>\<open>TypeError\<close>.
\<close>

fun py_lt :: "json \<Rightarrow> json \<Rightarrow> py_error + bool" where
  "py_lt (JInt a) (JInt b) = Inr (a < b)"
| "py_lt (JStr a) (JStr b) = Inr (a < b)"
| "py_lt a b = Inl TypeError"

text \<open>
  \<^verbatim>\<open>sorted(xs, key=key, reverse=reverse)\<close>. Python's sort is stable and compares keys
  with \<^verbatim>\<open><\<close> only; a comparison that raises aborts the sort. With
  \<^verbatim>\<open>reverse=True\<close> the list is reversed, sorted in ascending order and reversed again,
  which keeps equal keys in their input order. The sort is modelled as a stable
  insertion sort, which returns the same list as any other stable sort and raises
  exactly when the list has two elements whose keys cannot be ordered.
\<close>

fun py_insort :: "('a \<Rightarrow> json) \<Rightarrow> 'a \<Rightarrow> 'a list \<Rightarrow> py_error + 'a list" where
  "py_insort key x [] = Inr [x]"
| "py_insort key x (y # ys) =
     (case py_lt (key y) (key x) of
        Inl e \<Rightarrow> Inl e
      | Inr True \<Rightarrow> (case py_insort key x ys of Inl e \<Rightarrow> Inl e | Inr zs \<Rightarrow> Inr (y # zs))
      | Inr False \<Rightarrow> Inr (x # y # ys))"

fun py_sort :: "('a \<Rightarrow> json) \<Rightarrow> 'a list \<Rightarrow> py_error + 'a list" where
  "py_sort key [] = Inr []"
| "py_sort key (x # xs) =
     (case py_sort key xs of Inl e \<Rightarrow> Inl e | Inr ys \<Rightarrow> py_insort key x ys)"

definition sorted_py :: "('a \<Rightarrow> json) \<Rightarrow> bool \<Rightarrow> 'a list \<Rightarrow> py_error + 'a list" where
  "sorted_py key reverse xs =
     (if reverse then (case py_sort key (rev xs) of Inl e \<Rightarrow> Inl e | Inr ys \<Rightarrow> Inr (rev ys))
      else py_sort key xs)"

text \<open>\<^verbatim>\<open>str(v)\<close>, as an f-string formats a value.\<close>

function string_of_nat :: "nat \<Rightarrow> string" where
  "string_of_nat n =
     (if n < 10 then [''0123456789'' ! n]
      else string_of_nat (n div 10) @ [''0123456789'' ! (n mod 10)])"
  by pat_completeness auto
termination
  by (relation "measure (\<lambda>n. n)") auto

declare string_of_nat.simps [simp del]

fun py_str :: "json \<Rightarrow> string" where
  "py_str JNull = ''None''"
| "py_str (JInt i) = (if i < 0 then ''-'' @ string_of_nat (nat (- i)) else string_of_nat (nat i))"
| "py_str (JStr s) = s"

section \<open>Coroutines and the network\<close>

text \<open>
  An \<^verbatim>\<open>async def\<close> is a coroutine: it runs until it returns, raises, or suspends at
  an \<^verbatim>\<open>await\<close> that reaches the event loop. The program suspends in two places only:
  the HTTP request of \<^verbatim>\<open>session.get\<close> and the sleep between two attempts of the
  retrying decorator. A coroutine is the tree of what it does at each suspension.
\<close>

datatype 'a coro = Done 'a | Raise py_error | Get string "response \<Rightarrow> 'a coro"
  | Sleep int "'a coro"

text \<open>\<^verbatim>\<open>x = await c; f(x)\<close>: an exception of \<open>c\<close> is not caught.\<close>

primrec coro_bind :: "'a coro \<Rightarrow> ('a \<Rightarrow> 'b coro) \<Rightarrow> 'b coro" where
  "coro_bind (Done x) f = f x"
| "coro_bind (Raise e) f = Raise e"
| "coro_bind (Get url k) f = Get url (\<lambda>r. coro_bind (k r) f)"
| "coro_bind (Sleep d t) f = Sleep d (coro_bind t f)"

text \<open>
  The upstream API is a state machine: a request of a URL in a state gives a response
  (the decoded body, or the exception of the attempt) and the next state. \<open>exec\<close>
  runs one coroutine alone to its end.
\<close>

type_synonym 's network = "'s \<Rightarrow> string \<Rightarrow> response \<times> 's"

primrec exec :: "'s network \<Rightarrow> 'a coro \<Rightarrow> 's \<Rightarrow> (py_error + 'a) \<times> 's" where
  "exec net (Done x) s = (Inr x, s)"
| "exec net (Raise e) s = (Inl e, s)"
| "exec net (Get url k) s = (case net s url of (r, s') \<Rightarrow> exec net (k r) s')"
| "exec net (Sleep d t) s = exec net t s"

text \<open>What a coroutine run alone does at its suspensions, in order.\<close>

datatype event = Requested string | Slept int

primrec trace :: "'s network \<Rightarrow> 'a coro \<Rightarrow> 's \<Rightarrow> event list" where
  "trace net (Done x) s = []"
| "trace net (Raise e) s = []"
| "trace net (Get url k) s = Requested url # (case net s url of (r, s') \<Rightarrow> trace net (k r) s')"
| "trace net (Sleep d t) s = Slept d # trace net t s"

fun waits :: "event list \<Rightarrow> int list" where
  "waits [] = []"
| "waits (Slept d # es) = d # waits es"
| "waits (Requested url # es) = waits es"

fun attempts :: "event list \<Rightarrow> nat" where
  "attempts [] = 0"
| "attempts (Slept d # es) = attempts es"
| "attempts (Requested url # es) = Suc (attempts es)"

text \<open>
  \<^verbatim>\<open>asyncio.gather\<close> runs its coroutines as tasks of one event loop. A schedule is the
  list of the task numbers in the order in which the loop resumes them; one step takes
  a task to its next suspension. As soon as a task has raised, \<open>gather\<close> raises that
  exception; when all tasks have returned, it returns their results in the order of
  its arguments. A schedule that ends before that leaves the run unfinished (\<open>None\<close>).
\<close>

fun first_raised :: "'a coro list \<Rightarrow> py_error option" where
  "first_raised [] = None"
| "first_raised (Raise e # ts) = Some e"
| "first_raised (t # ts) = first_raised ts"

fun results_of :: "'a coro list \<Rightarrow> 'a list option" where
  "results_of [] = Some []"
| "results_of (Done x # ts) = (case results_of ts of None \<Rightarrow> None | Some xs \<Rightarrow> Some (x # xs))"
| "results_of (t # ts) = None"

definition gather_status :: "'a coro list \<Rightarrow> (py_error + 'a list) option" where
  "gather_status ts =
     (case first_raised ts of Some e \<Rightarrow> Some (Inl e)
      | None \<Rightarrow> (case results_of ts of Some xs \<Rightarrow> Some (Inr xs) | None \<Rightarrow> None))"

fun step_task :: "'s network \<Rightarrow> 'a coro \<Rightarrow> 's \<Rightarrow> 'a coro \<times> 's" where
  "step_task net (Get url k) s = (case net s url of (r, s') \<Rightarrow> (k r, s'))"
| "step_task net (Sleep d t) s = (t, s)"
| "step_task net t s = (t, s)"

primrec gather :: "'s network \<Rightarrow> nat list \<Rightarrow> 'a coro list \<Rightarrow> 's
    \<Rightarrow> (py_error + 'a list) option \<times> 's" where
  "gather net [] ts s = (gather_status ts, s)"
| "gather net (i # sched) ts s =
     (case gather_status ts of
        Some r \<Rightarrow> (Some r, s)
      | None \<Rightarrow>
          if i < length ts
          then (case step_task net (ts ! i) s of (t', s') \<Rightarrow> gather net sched (ts[i := t']) s')
          else gather net sched ts s)"

section \<open>The program\<close>

definition BASE_URL :: string where
  "BASE_URL = ''https://jsonplaceholder.typicode.com''"

definition USERS_URL :: string where
  "USERS_URL = BASE_URL @ ''/users''"

definition POSTS_URL :: string where
  "POSTS_URL = BASE_URL @ ''/posts''"

definition COMMENTS_URL :: string where
  "COMMENTS_URL = BASE_URL @ ''/comments''"

definition OUTPUT_CSV_PATH :: string where
  "OUTPUT_CSV_PATH = ''output.csv''"

subsection \<open>\<^verbatim>\<open>fetch_json\<close> and its retrying decorator\<close>

text \<open>
  \<^verbatim>\<open>@retry(stop=stop_after_attempt(3), wait=wait_exponential(multiplier=1, min=4, max=10))\<close>.
  The decorator counts the attempts from 1. After a failed attempt it asks the stop
  strategy; when that says stop it raises \<^verbatim>\<open>RetryError\<close> around the last attempt (the
  decorator is not given \<^verbatim>\<open>reraise=True\<close>), otherwise it sleeps for what the wait
  strategy says and tries again. The wait strategy is
  \<^verbatim>\<open>max(max(0, min), min(multiplier * 2 ** (attempt_number - 1), max))\<close>.
  The body of \<^verbatim>\<open>fetch_json\<close> is one request; its \<^verbatim>\<open>except\<close> clause logs and raises
  the same exception again.
\<close>

definition stop_after_attempt :: "nat \<Rightarrow> nat \<Rightarrow> bool" where
  "stop_after_attempt max_attempt_number attempt_number =
     (max_attempt_number \<le> attempt_number)"

definition wait_exponential :: "int \<Rightarrow> int \<Rightarrow> int \<Rightarrow> nat \<Rightarrow> int" where
  "wait_exponential multiplier mn mx attempt_number =
     max (max 0 mn) (min (multiplier * 2 ^ (attempt_number - 1)) mx)"

function retrying :: "string \<Rightarrow> nat \<Rightarrow> dict list coro" where
  "retrying url attempt_number =
     Get url (\<lambda>r. case r of
        Inr v \<Rightarrow> Done v
      | Inl e \<Rightarrow>
          if stop_after_attempt 3 attempt_number then Raise (RetryError e)
          else Sleep (wait_exponential 1 4 10 attempt_number)
                 (retrying url (Suc attempt_number)))"
  by pat_completeness auto
termination
  by (relation "measure (\<lambda>(url, n). 3 - n)") (auto simp: stop_after_attempt_def)

declare retrying.simps [simp del]

definition fetch_json :: "string \<Rightarrow> dict list coro" where
  "fetch_json url = retrying url 1"

subsection \<open>The collection fetchers\<close>

text \<open>
  \<^verbatim>\<open>[user for user in users if user.get("id") % 2 == 0]\<close>: the test runs on every
  record in turn, and the first one on which it raises ends the comprehension.
\<close>

fun even_ids :: "dict list \<Rightarrow> py_error + dict list" where
  "even_ids [] = Inr []"
| "even_ids (user # users) =
     (case py_mod (dict_get user ''id'') 2 of
        Inl e \<Rightarrow> Inl e
      | Inr m \<Rightarrow>
          (case even_ids users of
             Inl e \<Rightarrow> Inl e
           | Inr rest \<Rightarrow> Inr (if m = JInt 0 then user # rest else rest)))"

definition get_users :: "dict list coro" where
  "get_users =
     coro_bind (fetch_json USERS_URL)
       (\<lambda>users. case even_ids users of Inl e \<Rightarrow> Raise e | Inr r \<Rightarrow> Done r)"

definition get_latest_posts_for_user :: "json \<Rightarrow> dict list coro" where
  "get_latest_posts_for_user user_id =
     coro_bind (fetch_json (POSTS_URL @ ''?userId='' @ py_str user_id))
       (\<lambda>posts. case sorted_py (\<lambda>x. dict_get x ''id'') True posts of
          Inl e \<Rightarrow> Raise e
        | Inr s \<Rightarrow> Done (take 5 s))"

definition get_latest_comments_for_post :: "json \<Rightarrow> dict list coro" where
  "get_latest_comments_for_post post_id =
     coro_bind (fetch_json (COMMENTS_URL @ ''?postId='' @ py_str post_id))
       (\<lambda>comments. case sorted_py (\<lambda>x. dict_get x ''id'') True comments of
          Inl e \<Rightarrow> Raise e
        | Inr s \<Rightarrow> Done (take 3 s))"

subsection \<open>\<^verbatim>\<open>validate_data\<close>\<close>

text \<open>
  The loop returns at the first field that is missing or \<^verbatim>\<open>None\<close>. The \<^verbatim>\<open>or\<close> of
  its test is lazy: \<^verbatim>\<open>data[field]\<close> is evaluated only when the key is there.
\<close>

fun validate_data :: "dict \<Rightarrow> string list \<Rightarrow> py_error + bool" where
  "validate_data data [] = Inr True"
| "validate_data data (field # fields) =
     (if data field = None then Inr False
      else (case subscript data field of
              Inl e \<Rightarrow> Inl e
            | Inr v \<Rightarrow> if v = JNull then Inr False else validate_data data fields))"

subsection \<open>\<^verbatim>\<open>process_user_data\<close>\<close>

text \<open>An output row is a dictionary built by a literal: its keys in the order written.\<close>

type_synonym row = "(string \<times> json) list"

definition build_row :: "json \<Rightarrow> dict \<Rightarrow> dict \<Rightarrow> dict \<Rightarrow> py_error + row" where
  "build_row user_id user post comment =
     (case subscript user ''name'' of Inl e \<Rightarrow> Inl e | Inr user_name \<Rightarrow>
      case subscript post ''id'' of Inl e \<Rightarrow> Inl e | Inr post_id \<Rightarrow>
      case subscript post ''title'' of Inl e \<Rightarrow> Inl e | Inr post_title \<Rightarrow>
      case subscript comment ''id'' of Inl e \<Rightarrow> Inl e | Inr comment_id \<Rightarrow>
      case subscript comment ''body'' of Inl e \<Rightarrow> Inl e | Inr comment_body \<Rightarrow>
      case subscript comment ''email'' of Inl e \<Rightarrow> Inl e | Inr comment_email \<Rightarrow>
        Inr [(''user_id'', user_id), (''user_name'', user_name),
             (''post_id'', post_id), (''post_title'', post_title),
             (''comment_id'', comment_id), (''comment_body'', comment_body),
             (''comment_author_email'', comment_email)])"

text \<open>The inner loop, over the comments of one post; \<open>acc\<close> is \<^verbatim>\<open>user_comments\<close>.\<close>

fun comments_loop :: "json \<Rightarrow> dict \<Rightarrow> dict \<Rightarrow> dict list \<Rightarrow> row list \<Rightarrow> py_error + row list" where
  "comments_loop user_id user post [] acc = Inr acc"
| "comments_loop user_id user post (comment # comments) acc =
     (case validate_data comment [''id'', ''body'', ''email''] of
        Inl e \<Rightarrow> Inl e
      | Inr False \<Rightarrow> comments_loop user_id user post comments acc
      | Inr True \<Rightarrow>
          (case build_row user_id user post comment of
             Inl e \<Rightarrow> Inl e
           | Inr r \<Rightarrow> comments_loop user_id user post comments (acc @ [r])))"

text \<open>The outer loop, over the posts of the user.\<close>

fun posts_loop :: "json \<Rightarrow> dict \<Rightarrow> dict list \<Rightarrow> row list \<Rightarrow> row list coro" where
  "posts_loop user_id user [] acc = Done acc"
| "posts_loop user_id user (post # posts) acc =
     (case validate_data post [''id'', ''title''] of
        Inl e \<Rightarrow> Raise e
      | Inr False \<Rightarrow> posts_loop user_id user posts acc
      | Inr True \<Rightarrow>
          (case subscript post ''id'' of
             Inl e \<Rightarrow> Raise e
           | Inr post_id \<Rightarrow>
               coro_bind (get_latest_comments_for_post post_id)
                 (\<lambda>comments. case comments_loop user_id user post comments acc of
                    Inl e \<Rightarrow> Raise e
                  | Inr acc' \<Rightarrow> posts_loop user_id user posts acc')))"

definition process_user_data :: "dict \<Rightarrow> row list coro" where
  "process_user_data user =
     (case validate_data user [''id'', ''name''] of
        Inl e \<Rightarrow> Raise e
      | Inr False \<Rightarrow> Done []
      | Inr True \<Rightarrow>
          (case subscript user ''id'' of
             Inl e \<Rightarrow> Raise e
           | Inr user_id \<Rightarrow>
               coro_bind (get_latest_posts_for_user user_id)
                 (\<lambda>posts. posts_loop user_id user posts [])))"

subsection \<open>\<^verbatim>\<open>main\<close>\<close>

text \<open>
  A file holds a table: the header line and one line of cells for each row. The file
  system maps a path to the table of the file there.
\<close>

type_synonym table = "json list list"
type_synonym files = "string \<rightharpoonup> table"

definition fieldnames :: "string list" where
  "fieldnames = [''user_id'', ''user_name'', ''post_id'', ''post_title'',
                 ''comment_id'', ''comment_body'', ''comment_author_email'']"

text \<open>
  \<^verbatim>\<open>csv.DictWriter\<close> turns a row into its cells in the order of the field names, with
  the empty string for a field the row does not have, and raises \<^verbatim>\<open>ValueError\<close> on a
  row with a key that is not a field name. \<^verbatim>\<open>writerows\<close> writes line after line, so
  the lines before a row that raises are in the file.
\<close>

definition dict_to_list :: "string list \<Rightarrow> row \<Rightarrow> py_error + json list" where
  "dict_to_list fields r =
     (if filter (\<lambda>k. k \<notin> set fields) (map fst r) \<noteq> [] then Inl ValueError
      else Inr (map (\<lambda>k. case map_of r k of None \<Rightarrow> JStr [] | Some v \<Rightarrow> v) fields))"

fun writerows :: "string list \<Rightarrow> row list \<Rightarrow> table \<Rightarrow> py_error option \<times> table" where
  "writerows fields [] out = (None, out)"
| "writerows fields (r # rs) out =
     (case dict_to_list fields r of
        Inl e \<Rightarrow> (Some e, out)
      | Inr cells \<Rightarrow> writerows fields rs (out @ [cells]))"

text \<open>
  Lines 112--118 of \<^verbatim>\<open>main\<close>: the users, one task for each of them, and the flat list
  \<^verbatim>\<open>all_comments_data\<close>.
\<close>

definition main_fetch :: "'s network \<Rightarrow> nat list \<Rightarrow> 's \<Rightarrow> (py_error + row list) option \<times> 's" where
  "main_fetch net sched s =
     (case exec net get_users s of
        (Inl e, s1) \<Rightarrow> (Some (Inl e), s1)
      | (Inr users, s1) \<Rightarrow>
          (case gather net sched (map process_user_data users) s1 of
             (None, s2) \<Rightarrow> (None, s2)
           | (Some (Inl e), s2) \<Rightarrow> (Some (Inl e), s2)
           | (Some (Inr results), s2) \<Rightarrow> (Some (Inr (concat results)), s2)))"

text \<open>
  Lines 121--132: the file is opened, and so written, only when there are rows. The
  errors of the operating system and of the encoding of the text, which \<^verbatim>\<open>open\<close> and
  the writer can raise once the file is open, are not modelled.
\<close>

definition main_write :: "row list \<Rightarrow> files \<Rightarrow> (py_error + unit) \<times> files" where
  "main_write all_comments_data fs =
     (if all_comments_data \<noteq> [] then
        (case writerows fieldnames all_comments_data [map JStr fieldnames] of
           (None, out) \<Rightarrow> (Inr (), fs(OUTPUT_CSV_PATH \<mapsto> out))
         | (Some e, out) \<Rightarrow> (Inl e, fs(OUTPUT_CSV_PATH \<mapsto> out)))
      else (Inr (), fs))"

definition main :: "'s network \<Rightarrow> nat list \<Rightarrow> 's \<Rightarrow> files \<Rightarrow> (py_error + unit) option \<times> files" where
  "main net sched s fs =
     (case main_fetch net sched s of
        (None, s') \<Rightarrow> (None, fs)
      | (Some (Inl e), s') \<Rightarrow> (Some (Inl e), fs)
      | (Some (Inr all_comments_data), s') \<Rightarrow>
          (case main_write all_comments_data fs of (r, fs') \<Rightarrow> (Some r, fs')))"

section \<open>Vocabulary of the properties\<close>

text \<open>
  The definitions of this section are not code of the program: they are the words in
  which its properties are stated.
\<close>

text \<open>The integer under a key, for records whose \<^verbatim>\<open>id\<close> is an integer.\<close>

fun is_int :: "json \<Rightarrow> bool" where
  "is_int (JInt i) = True"
| "is_int v = False"

fun the_int :: "json \<Rightarrow> int" where
  "the_int (JInt i) = i"
| "the_int v = 0"

definition id_of :: "dict \<Rightarrow> int" where
  "id_of d = the_int (dict_get d ''id'')"

definition int_ids :: "dict list \<Rightarrow> bool" where
  "int_ids recs = list_all (\<lambda>r. is_int (dict_get r ''id'')) recs"

text \<open>
  \<open>latest_of n recs latest\<close>: \<open>latest\<close> holds \<open>n\<close> records of \<open>recs\<close> (all of them
  when there are fewer), in descending order of \<^verbatim>\<open>id\<close>; no record left out has a
  higher \<^verbatim>\<open>id\<close> than one taken; and the records of one \<^verbatim>\<open>id\<close> come in the order
  they have in \<open>recs\<close>, the first ones being taken.
\<close>

definition latest_of :: "nat \<Rightarrow> dict list \<Rightarrow> dict list \<Rightarrow> bool" where
  "latest_of n recs latest \<longleftrightarrow>
     length latest = min n (length recs)
     \<and> sorted_wrt (\<lambda>a b. id_of a \<ge> id_of b) latest
     \<and> (\<exists>rest. mset recs = mset latest + mset rest
            \<and> (\<forall>x\<in>set rest. \<forall>y\<in>set latest. id_of x \<le> id_of y))
     \<and> (\<forall>k. prefix (filter (\<lambda>r. id_of r = k) latest) (filter (\<lambda>r. id_of r = k) recs))"

text \<open>
  \<open>leaves R P c\<close>: whatever the responses to its requests, as long as each satisfies \<open>R\<close>,
  a value that the coroutine \<open>c\<close> returns satisfies \<open>P\<close>.
\<close>

primrec leaves :: "(response \<Rightarrow> bool) \<Rightarrow> ('a \<Rightarrow> bool) \<Rightarrow> 'a coro \<Rightarrow> bool" where
  "leaves R P (Done x) = P x"
| "leaves R P (Raise e) = True"
| "leaves R P (Get url k) = (\<forall>r. R r \<longrightarrow> leaves R P (k r))"
| "leaves R P (Sleep d t) = leaves R P t"

text \<open>Upstream behaviours and records used as examples.\<close>

definition example_recs :: "dict list" where
  "example_recs =
     [[''id'' \<mapsto> JInt 3, ''title'' \<mapsto> JStr ''c''], [''id'' \<mapsto> JInt 7, ''title'' \<mapsto> JStr ''g''],
      [''id'' \<mapsto> JInt 1, ''title'' \<mapsto> JStr ''a''], [''id'' \<mapsto> JInt 7, ''title'' \<mapsto> JStr ''h''],
      [''id'' \<mapsto> JInt 5, ''title'' \<mapsto> JStr ''e''], [''id'' \<mapsto> JInt 2, ''title'' \<mapsto> JStr ''b''],
      [''id'' \<mapsto> JInt 6, ''title'' \<mapsto> JStr ''f'']]"

definition flaky :: "dict list \<Rightarrow> nat network" where
  "flaky v n url = (if n < 2 then Inl TimeoutError else Inr v, Suc n)"

definition steady :: "dict list \<Rightarrow> nat network" where
  "steady v n url = (Inr v, Suc n)"

text \<open>
  A record has a field when the key is there and its value is not \<^verbatim>\<open>None\<close>: what
  \<^verbatim>\<open>validate_data\<close> tests.
\<close>

definition has_fields :: "dict \<Rightarrow> string list \<Rightarrow> bool" where
  "has_fields d fields = list_all (\<lambda>f. d f \<noteq> None \<and> d f \<noteq> Some JNull) fields"

text \<open>The output row of a user, one of its posts and one of the comments of the post.\<close>

definition mk_row :: "dict \<Rightarrow> dict \<Rightarrow> dict \<Rightarrow> row" where
  "mk_row user post comment =
     [(''user_id'', dict_get user ''id''), (''user_name'', dict_get user ''name''),
      (''post_id'', dict_get post ''id''), (''post_title'', dict_get post ''title''),
      (''comment_id'', dict_get comment ''id''), (''comment_body'', dict_get comment ''body''),
      (''comment_author_email'', dict_get comment ''email'')]"

text \<open>
  The value of a row under a key; a well-formed row has the seven field names as its
  keys, in order, and no \<^verbatim>\<open>None\<close> among its values; a row of a user carries the
  \<^verbatim>\<open>id\<close> and the \<^verbatim>\<open>name\<close> of the user.
\<close>

definition cell :: "row \<Rightarrow> string \<Rightarrow> json" where
  "cell r k = (case map_of r k of None \<Rightarrow> JNull | Some v \<Rightarrow> v)"

definition row_ok :: "row \<Rightarrow> bool" where
  "row_ok r \<longleftrightarrow> map fst r = fieldnames \<and> list_all (\<lambda>v. v \<noteq> JNull) (map snd r)"

definition user_row :: "dict \<Rightarrow> row \<Rightarrow> bool" where
  "user_row user r \<longleftrightarrow>
     row_ok r \<and> cell r ''user_id'' = dict_get user ''id''
     \<and> cell r ''user_name'' = dict_get user ''name''"

text \<open>
  The order of the rows of one user. \<open>post_desc\<close>: the post of the first row does not
  have a lower \<^verbatim>\<open>id\<close> than the post of the second. \<open>row_before\<close>: the post of the first
  row has a higher \<^verbatim>\<open>id\<close>, or the same \<^verbatim>\<open>id\<close> and the comment of the first row has
  a higher \<^verbatim>\<open>id\<close>.
\<close>

definition post_desc :: "row \<Rightarrow> row \<Rightarrow> bool" where
  "post_desc r1 r2 \<longleftrightarrow> py_lt (cell r1 ''post_id'') (cell r2 ''post_id'') = Inr False"

definition row_before :: "row \<Rightarrow> row \<Rightarrow> bool" where
  "row_before r1 r2 \<longleftrightarrow>
     py_lt (cell r2 ''post_id'') (cell r1 ''post_id'') = Inr True
     \<or> (cell r1 ''post_id'' = cell r2 ''post_id''
        \<and> py_lt (cell r2 ''comment_id'') (cell r1 ''comment_id'') = Inr True)"

text \<open>
  Records in descending order of \<^verbatim>\<open>id\<close>, and in strictly descending order; a response
  whose records have pairwise different \<^verbatim>\<open>id\<close>s, as the API promises.
\<close>

definition desc :: "dict list \<Rightarrow> bool" where
  "desc xs = sorted_wrt (\<lambda>a b. py_lt (dict_get a ''id'') (dict_get b ''id'') = Inr False) xs"

definition strictly_desc :: "dict list \<Rightarrow> bool" where
  "strictly_desc xs = sorted_wrt (\<lambda>a b. py_lt (dict_get b ''id'') (dict_get a ''id'') = Inr True) xs"

definition unique_ids :: "response \<Rightarrow> bool" where
  "unique_ids r = (case r of Inl e \<Rightarrow> True | Inr recs \<Rightarrow> distinct (map (\<lambda>x. dict_get x ''id'') recs))"

text \<open>
  The result of a coroutine on an upstream whose response depends on the URL only.
\<close>

primrec result_on :: "(string \<Rightarrow> response) \<Rightarrow> 'a coro \<Rightarrow> py_error + 'a" where
  "result_on api (Done x) = Inr x"
| "result_on api (Raise e) = Inl e"
| "result_on api (Get url k) = result_on api (k (api url))"
| "result_on api (Sleep d t) = result_on api t"

text \<open>
  More examples: an upstream with three users, of which two qualify; the rows of a run
  on it; the same upstream with the posts of one user failing; an upstream that fails
  every attempt; lists of users with a missing or null \<^verbatim>\<open>id\<close>, and with odd
  \<^verbatim>\<open>id\<close>s only; a file system with an output file from an earlier run.
\<close>

definition example_users :: "dict list" where
  "example_users =
     [[''id'' \<mapsto> JInt 1, ''name'' \<mapsto> JStr ''A''],
      [''id'' \<mapsto> JInt 2, ''name'' \<mapsto> JStr ''B''],
      [''id'' \<mapsto> JInt 4, ''name'' \<mapsto> JStr ''D'']]"

definition example_api :: "string \<Rightarrow> response" where
  "example_api url =
     (if url = ''https://jsonplaceholder.typicode.com/users'' then Inr example_users
      else if url = ''https://jsonplaceholder.typicode.com/posts?userId=2'' then
        Inr [[''id'' \<mapsto> JInt 9, ''title'' \<mapsto> JStr ''Q''],
             [''id'' \<mapsto> JInt 10, ''title'' \<mapsto> JStr ''P'']]
      else if url = ''https://jsonplaceholder.typicode.com/posts?userId=4'' then
        Inr [[''id'' \<mapsto> JInt 20, ''title'' \<mapsto> JStr ''T'']]
      else if url = ''https://jsonplaceholder.typicode.com/comments?postId=10'' then
        Inr [[''id'' \<mapsto> JInt 100, ''body'' \<mapsto> JStr ''x'', ''email'' \<mapsto> JStr ''e1''],
             [''id'' \<mapsto> JInt 101, ''body'' \<mapsto> JStr ''y'', ''email'' \<mapsto> JStr ''e2'']]
      else if url = ''https://jsonplaceholder.typicode.com/comments?postId=20'' then
        Inr [[''id'' \<mapsto> JInt 200, ''body'' \<mapsto> JStr ''z'', ''email'' \<mapsto> JStr ''e3'']]
      else Inr [])"

definition example_net :: "nat network" where
  "example_net s url = (example_api url, Suc s)"

definition example_rows :: "row list" where
  "example_rows =
     [[(''user_id'', JInt 2), (''user_name'', JStr ''B''), (''post_id'', JInt 10),
       (''post_title'', JStr ''P''), (''comment_id'', JInt 101), (''comment_body'', JStr ''y''),
       (''comment_author_email'', JStr ''e2'')],
      [(''user_id'', JInt 2), (''user_name'', JStr ''B''), (''post_id'', JInt 10),
       (''post_title'', JStr ''P''), (''comment_id'', JInt 100), (''comment_body'', JStr ''x''),
       (''comment_author_email'', JStr ''e1'')],
      [(''user_id'', JInt 4), (''user_name'', JStr ''D''), (''post_id'', JInt 20),
       (''post_title'', JStr ''T''), (''comment_id'', JInt 200), (''comment_body'', JStr ''z''),
       (''comment_author_email'', JStr ''e3'')]]"


definition failing :: "unit network" where
  "failing s url = (Inl TimeoutError, s)"

definition bad_users :: "dict list" where
  "bad_users = [[''id'' \<mapsto> JInt 2, ''name'' \<mapsto> JStr ''B''], [''name'' \<mapsto> JStr ''C''],
                [''id'' \<mapsto> JNull, ''name'' \<mapsto> JStr ''E'']]"

definition odd_users :: "dict list" where
  "odd_users = [[''id'' \<mapsto> JInt 1, ''name'' \<mapsto> JStr ''A''], [''id'' \<mapsto> JInt 3, ''name'' \<mapsto> JStr ''C'']]"

definition old_files :: files where
  "old_files = [OUTPUT_CSV_PATH \<mapsto> [[JStr ''old'']]]"






definition gap_posts :: "dict list" where
  "gap_posts = [[''id'' \<mapsto> JInt 1, ''title'' \<mapsto> JStr ''a''], [''title'' \<mapsto> JStr ''b'']]"



section \<open>Running coroutines\<close>

lemma exec_bind:
  "exec net (coro_bind t f) s =
     (case exec net t s of (Inl e, s') \<Rightarrow> (Inl e, s') | (Inr x, s') \<Rightarrow> exec net (f x) s')"
  by (induction t arbitrary: s) (auto split: prod.splits)

lemma fetch_json_unfold:
  "fetch_json url =
     Get url (\<lambda>r1. case r1 of Inr v \<Rightarrow> Done v | Inl e1 \<Rightarrow>
       Sleep 4 (Get url (\<lambda>r2. case r2 of Inr v \<Rightarrow> Done v | Inl e2 \<Rightarrow>
         Sleep 4 (Get url (\<lambda>r3. case r3 of Inr v \<Rightarrow> Done v | Inl e3 \<Rightarrow>
           Raise (RetryError e3))))))"
proof -
  have w1: "wait_exponential 1 4 10 (Suc 0) = 4" and w2: "wait_exponential 1 4 10 (Suc (Suc 0)) = 4"
    by (simp_all add: wait_exponential_def)
  have r3: "retrying url (Suc (Suc (Suc 0))) =
      Get url (\<lambda>r3. case r3 of Inr v \<Rightarrow> Done v | Inl e3 \<Rightarrow> Raise (RetryError e3))"
    by (subst retrying.simps) (simp add: stop_after_attempt_def)
  have r2: "retrying url (Suc (Suc 0)) =
      Get url (\<lambda>r2. case r2 of Inr v \<Rightarrow> Done v | Inl e2 \<Rightarrow> Sleep 4 (retrying url (Suc (Suc (Suc 0)))))"
    by (subst retrying.simps) (simp add: stop_after_attempt_def w2)
  have r1: "retrying url (Suc 0) =
      Get url (\<lambda>r1. case r1 of Inr v \<Rightarrow> Done v | Inl e1 \<Rightarrow> Sleep 4 (retrying url (Suc (Suc 0))))"
    by (subst retrying.simps) (simp add: stop_after_attempt_def w1)
  show ?thesis unfolding fetch_json_def One_nat_def r1 r2 r3 ..
qed

lemma leaves_bind:
  "leaves R P t \<Longrightarrow> (\<And>x. P x \<Longrightarrow> leaves R Q (f x)) \<Longrightarrow> leaves R Q (coro_bind t f)"
  by (induction t) auto

lemma leaves_fetch_json:
  "(\<And>v. R (Inr v) \<Longrightarrow> P v) \<Longrightarrow> leaves R P (fetch_json url)"
  by (auto simp: fetch_json_unfold split: sum.splits)

lemma leaves_mono:
  "leaves R P t \<Longrightarrow> (\<And>x. P x \<Longrightarrow> Q x) \<Longrightarrow> leaves R Q t"
  by (induction t) auto

lemma leaves_exec:
  "leaves R P t \<Longrightarrow> (\<And>s u. R (fst (net s u))) \<Longrightarrow> exec net t s = (Inr x, s') \<Longrightarrow> P x"
proof (induction t arbitrary: s)
  case (Get url k)
  obtain r s1 where n: "net s url = (r, s1)" by (cases "net s url")
  have "R r" using Get.prems(2)[of s url] n by simp
  then show ?case using Get n by auto
qed auto

lemma leaves_step:
  "leaves R P t \<Longrightarrow> (\<And>s u. R (fst (net s u))) \<Longrightarrow> leaves R P (fst (step_task net t s))"
proof (cases t)
  case (Get url k)
  assume l: "leaves R P t" and n: "\<And>s u. R (fst (net s u))"
  obtain r s1 where ns: "net s url = (r, s1)" by (cases "net s url")
  have "R r" using n[of s url] ns by simp
  then show ?thesis using l Get ns by simp
qed auto

lemma gather_status_results:
  "gather_status ts = Some (Inr xs) \<Longrightarrow> ts = map Done xs"
proof (induction ts arbitrary: xs)
  case Nil then show ?case by (simp add: gather_status_def)
next
  case (Cons t ts)
  then show ?case
    by (cases t) (auto simp: gather_status_def split: option.splits)
qed

lemma gather_results:
  "list_all2 (leaves R) Ps ts \<Longrightarrow> (\<And>s u. R (fst (net s u))) \<Longrightarrow>
   gather net sched ts s = (Some (Inr xs), s') \<Longrightarrow> list_all2 (\<lambda>P x. P x) Ps xs"
proof (induction sched arbitrary: ts s)
  case Nil
  then have "ts = map Done xs" by (auto dest: gather_status_results)
  with Nil(1) show ?case by (simp add: list_all2_map2)
next
  case (Cons i sched)
  show ?case
  proof (cases "gather_status ts")
    case (Some r)
    with Cons.prems(3) have "ts = map Done xs" by (auto dest: gather_status_results)
    with Cons.prems(1) show ?thesis by (simp add: list_all2_map2)
  next
    case None
    show ?thesis
    proof (cases "i < length ts")
      case True
      obtain t' s1 where st: "step_task net (ts ! i) s = (t', s1)" by (cases "step_task net (ts ! i) s")
      have i: "i < length Ps" using True Cons.prems(1) by (simp add: list_all2_lengthD)
      have "leaves R (Ps ! i) (ts ! i)" using Cons.prems(1) True by (simp add: list_all2_nthD2)
      then have "leaves R (Ps ! i) t'" using leaves_step[of R "Ps ! i" "ts ! i" net s] Cons.prems(2) st by simp
      then have "list_all2 (leaves R) Ps (ts[i := t'])"
        using Cons.prems(1) True by (simp add: list_all2_conv_all_nth nth_list_update)
      moreover have "gather net sched (ts[i := t']) s1 = (Some (Inr xs), s')"
        using Cons.prems(3) None True st by simp
      ultimately show ?thesis using Cons.IH Cons.prems(2) by blast
    next
      case False
      then show ?thesis using Cons None by simp
    qed
  qed
qed

lemma leaves_True: "leaves R (\<lambda>x. True) t"
  by (induction t) auto

lemma exec_fetch_ok:
  "net s url = (Inr v, s1) \<Longrightarrow> exec net (fetch_json url) s = (Inr v, s1)"
  by (simp add: fetch_json_unfold)

lemma exec_fetch_exhausted:
  "net s url = (Inl e1, s1) \<Longrightarrow> net s1 url = (Inl e2, s2) \<Longrightarrow> net s2 url = (Inl e3, s3) \<Longrightarrow>
   exec net (fetch_json url) s = (Inl (RetryError e3), s3)"
  by (simp add: fetch_json_unfold)


lemma gather_empty: "gather net sched [] s = (Some (Inr []), s)"
  by (cases sched) (simp_all add: gather_status_def)

lemma step_result_on:
  assumes "\<And>t url. fst (net t url) = api url"
  shows "result_on api (fst (step_task net c s)) = result_on api c"
proof (cases c)
  case (Get url k)
  obtain r s1 where n: "net s url = (r, s1)" by (cases "net s url")
  then have "r = api url" using assms[of s url] by simp
  then show ?thesis using Get n by simp
qed auto

lemma gather_result_on:
  assumes "\<And>t url. fst (net t url) = api url"
  shows "gather net sched ts s = (Some (Inr xs), s') \<Longrightarrow> map (result_on api) ts = map Inr xs"
proof (induction sched arbitrary: ts s)
  case Nil
  then have "ts = map Done xs" by (auto dest: gather_status_results)
  then show ?case by simp
next
  case (Cons i sched)
  show ?case
  proof (cases "gather_status ts")
    case (Some r)
    with Cons.prems have "ts = map Done xs" by (auto dest: gather_status_results)
    then show ?thesis by simp
  next
    case None
    show ?thesis
    proof (cases "i < length ts")
      case True
      obtain t' s1 where st: "step_task net (ts ! i) s = (t', s1)"
        by (cases "step_task net (ts ! i) s")
      have same: "result_on api t' = result_on api (ts ! i)"
        using step_result_on[where net = net and api = api and c = "ts ! i" and s = s] assms st
        by simp
      have "gather net sched (ts[i := t']) s1 = (Some (Inr xs), s')"
        using Cons.prems None True st by simp
      then have "map (result_on api) (ts[i := t']) = map Inr xs" by (rule Cons.IH)
      moreover have "map (result_on api) (ts[i := t']) = map (result_on api) ts"
        using True same by (simp add: map_update list_update_same_conv)
      ultimately show ?thesis by simp
    next
      case False
      then show ?thesis using Cons None by simp
    qed
  qed
qed

section \<open>The sort\<close>

lemma py_lt_asym: "py_lt a b = Inr True \<Longrightarrow> py_lt b a = Inr False"
  by (cases a; cases b) auto

lemma py_lt_neq: "py_lt a b = Inr True \<Longrightarrow> a \<noteq> b"
  by (cases a; cases b) auto

lemma py_ge_trans: "py_lt a b = Inr False \<Longrightarrow> py_lt b c = Inr False \<Longrightarrow> py_lt a c = Inr False"
  by (cases a; cases b; cases c) auto

lemma py_lt_total: "py_lt a b = Inr False \<Longrightarrow> a \<noteq> b \<Longrightarrow> py_lt b a = Inr True"
  by (cases a; cases b) auto

lemma py_insort_mset: "py_insort key x ys = Inr zs \<Longrightarrow> mset zs = add_mset x (mset ys)"
  by (induction ys arbitrary: zs) (auto split: sum.splits bool.splits if_splits)

lemma py_insort_sorted:
  "sorted_wrt (\<lambda>a b. py_lt (key b) (key a) = Inr False) ys \<Longrightarrow> py_insort key x ys = Inr zs \<Longrightarrow>
   sorted_wrt (\<lambda>a b. py_lt (key b) (key a) = Inr False) zs"
proof (induction ys arbitrary: zs)
  case Nil
  then show ?case by auto
next
  case (Cons y ys)
  show ?case
  proof (cases "py_lt (key y) (key x)")
    case (Inl e)
    with Cons.prems show ?thesis by simp
  next
    case (Inr b)
    show ?thesis
    proof (cases b)
      case True
      then obtain zs' where zs': "py_insort key x ys = Inr zs'" and zs: "zs = y # zs'"
        using Cons.prems(2) Inr by (auto split: sum.splits)
      have s: "sorted_wrt (\<lambda>a b. py_lt (key b) (key a) = Inr False) zs'"
        using Cons.IH[OF _ zs'] Cons.prems(1) by simp
      have "set zs' = insert x (set ys)"
        using py_insort_mset[OF zs'] by (metis set_mset_add_mset_insert set_mset_mset)
      moreover have "py_lt (key x) (key y) = Inr False"
        using Inr True py_lt_asym by simp
      ultimately show ?thesis using s zs Cons.prems(1) by auto
    next
      case False
      then have zs: "zs = x # y # ys" using Cons.prems(2) Inr by simp
      have xy: "py_lt (key y) (key x) = Inr False" using Inr False by simp
      have "\<forall>z\<in>set ys. py_lt (key z) (key x) = Inr False"
        using Cons.prems(1) xy py_ge_trans by auto
      then show ?thesis using zs xy Cons.prems(1) by auto
    qed
  qed
qed

lemma py_insort_stable:
  "py_insort key x ys = Inr zs \<Longrightarrow> filter (\<lambda>z. key z = k) zs = filter (\<lambda>z. key z = k) (x # ys)"
proof (induction ys arbitrary: zs)
  case Nil
  then show ?case by auto
next
  case (Cons y ys)
  then show ?case
    by (auto split: sum.splits bool.splits dest: py_lt_neq)
qed

lemma py_sort_mset: "py_sort key xs = Inr ys \<Longrightarrow> mset ys = mset xs"
  by (induction xs arbitrary: ys) (auto split: sum.splits dest: py_insort_mset)

lemma py_sort_sorted:
  "py_sort key xs = Inr ys \<Longrightarrow> sorted_wrt (\<lambda>a b. py_lt (key b) (key a) = Inr False) ys"
  by (induction xs arbitrary: ys) (auto split: sum.splits dest: py_insort_sorted)

lemma py_sort_stable:
  "py_sort key xs = Inr ys \<Longrightarrow> filter (\<lambda>z. key z = k) ys = filter (\<lambda>z. key z = k) xs"
proof (induction xs arbitrary: ys)
  case Nil
  then show ?case by simp
next
  case (Cons x xs)
  then obtain ys' where a: "py_sort key xs = Inr ys'" and b: "py_insort key x ys' = Inr ys"
    by (auto split: sum.splits)
  show ?case using py_insort_stable[OF b, of k] Cons.IH[OF a] by simp
qed

lemma py_insort_total:
  "is_int (key x) \<Longrightarrow> list_all (\<lambda>y. is_int (key y)) ys \<Longrightarrow> \<exists>zs. py_insort key x ys = Inr zs"
proof (induction ys)
  case Nil
  then show ?case by simp
next
  case (Cons y ys)
  then obtain zs where "py_insort key x ys = Inr zs" by auto
  moreover obtain i j where "key x = JInt i" "key y = JInt j"
    using Cons.prems by (cases "key x"; cases "key y") auto
  ultimately show ?case by (cases "j < i") auto
qed

lemma py_sort_total:
  "list_all (\<lambda>y. is_int (key y)) xs \<Longrightarrow> \<exists>ys. py_sort key xs = Inr ys"
proof (induction xs)
  case Nil
  then show ?case by simp
next
  case (Cons x xs)
  then obtain ys where ys: "py_sort key xs = Inr ys" by auto
  have "list_all (\<lambda>y. is_int (key y)) ys"
    using py_sort_mset[OF ys] Cons.prems
    by (metis list.pred_inject(2) list_all_iff mset_eq_setD)
  then show ?case using py_insort_total[of key x ys] Cons.prems ys by auto
qed

lemma sorted_py_reverse:
  assumes "sorted_py key True xs = Inr ys"
  shows "mset ys = mset xs"
    and "sorted_wrt (\<lambda>a b. py_lt (key a) (key b) = Inr False) ys"
    and "filter (\<lambda>z. key z = k) ys = filter (\<lambda>z. key z = k) xs"
proof -
  obtain zs where zs: "py_sort key (rev xs) = Inr zs" and ys: "ys = rev zs"
    using assms by (auto simp: sorted_py_def split: sum.splits)
  show "mset ys = mset xs" using py_sort_mset[OF zs] ys by simp
  show "sorted_wrt (\<lambda>a b. py_lt (key a) (key b) = Inr False) ys"
    using py_sort_sorted[OF zs] ys by (simp add: sorted_wrt_rev)
  show "filter (\<lambda>z. key z = k) ys = filter (\<lambda>z. key z = k) xs"
    using py_sort_stable[OF zs, of k] ys by (simp add: rev_filter[symmetric])
qed

lemma sorted_py_total:
  "list_all (\<lambda>y. is_int (key y)) xs \<Longrightarrow> \<exists>ys. sorted_py key True xs = Inr ys"
  using py_sort_total[of key "rev xs"] by (auto simp: sorted_py_def list_all_iff)

lemma key_int: "is_int (dict_get r ''id'') \<Longrightarrow> dict_get r ''id'' = JInt (id_of r)"
  by (cases "dict_get r ''id''") (auto simp: id_of_def)

lemma key_int_iff: "is_int (dict_get r ''id'') \<Longrightarrow> dict_get r ''id'' = JInt k \<longleftrightarrow> id_of r = k"
  by (cases "dict_get r ''id''") (auto simp: id_of_def)

lemma sorted_py_latest:
  assumes ints: "int_ids recs"
      and srt: "sorted_py (\<lambda>x. dict_get x ''id'') True recs = Inr ys"
  shows "latest_of n recs (take n ys)"
proof -
  let ?key = "\<lambda>x. dict_get x ''id''"
  have ms: "mset ys = mset recs" using sorted_py_reverse(1)[OF srt] .
  have ints_ys: "\<forall>y\<in>set ys. is_int (?key y)"
    using ints mset_eq_setD[OF ms] by (simp add: int_ids_def list_all_iff)
  have ints_recs: "\<forall>y\<in>set recs. is_int (?key y)"
    using ints by (simp add: int_ids_def list_all_iff)
  have desc: "sorted_wrt (\<lambda>a b. id_of a \<ge> id_of b) ys"
  proof (rule sorted_wrt_mono_rel[OF _ sorted_py_reverse(2)[OF srt]])
    fix a b assume "a \<in> set ys" "b \<in> set ys" "py_lt (?key a) (?key b) = Inr False"
    then show "id_of b \<le> id_of a" using ints_ys key_int[of a] key_int[of b] by auto
  qed
  have len: "length (take n ys) = min n (length recs)"
    using mset_eq_length[OF ms] by simp
  have split: "mset recs = mset (take n ys) + mset (drop n ys)"
    using ms by (metis append_take_drop_id mset_append)
  have "sorted_wrt (\<lambda>a b. id_of a \<ge> id_of b) (take n ys @ drop n ys)" using desc by simp
  then have top: "\<forall>x\<in>set (drop n ys). \<forall>y\<in>set (take n ys). id_of x \<le> id_of y"
    unfolding sorted_wrt_append by blast
  have stable: "prefix (filter (\<lambda>r. id_of r = k) (take n ys)) (filter (\<lambda>r. id_of r = k) recs)" for k
  proof -
    have "filter (\<lambda>r. id_of r = k) ys = filter (\<lambda>r. ?key r = JInt k) ys"
      using ints_ys key_int_iff by (intro filter_cong) auto
    also have "\<dots> = filter (\<lambda>r. ?key r = JInt k) recs"
      using sorted_py_reverse(3)[OF srt] .
    also have "\<dots> = filter (\<lambda>r. id_of r = k) recs"
      using ints_recs key_int_iff by (intro filter_cong) auto
    finally show ?thesis
      using filter_mono_prefix[OF take_is_prefix, of "\<lambda>r. id_of r = k" n ys] by simp
  qed
  show ?thesis
    unfolding latest_of_def using len desc split top stable by (auto intro: sorted_wrt_take)
qed

lemma py_lt_refl: "v \<noteq> JNull \<Longrightarrow> py_lt v v = Inr False"
  by (cases v) auto

lemma sorted_wrt_distinct:
  "sorted_wrt P xs \<Longrightarrow> distinct (map f xs) \<Longrightarrow> (\<And>a b. P a b \<Longrightarrow> f a \<noteq> f b \<Longrightarrow> Q a b) \<Longrightarrow>
   sorted_wrt Q xs"
  by (induction xs) auto

lemma sorted_py_strict:
  assumes "distinct (map key xs)" and "sorted_py key True xs = Inr ys"
  shows "sorted_wrt (\<lambda>a b. py_lt (key b) (key a) = Inr True) ys"
proof -
  have "mset (map key ys) = mset (map key xs)"
    using sorted_py_reverse(1)[OF assms(2)] by simp
  then have "distinct (map key ys)" using assms(1) by (metis mset_eq_imp_distinct_iff)
  then show ?thesis
  proof (rule sorted_wrt_distinct[OF sorted_py_reverse(2)[OF assms(2)]])
    fix a b assume "py_lt (key a) (key b) = Inr False" "key a \<noteq> key b"
    then show "py_lt (key b) (key a) = Inr True" by (rule py_lt_total)
  qed
qed

lemma py_lt_null: "py_lt a JNull = Inl TypeError" "py_lt JNull b = Inl TypeError"
  by (cases a; simp) (cases b; simp)

lemma py_lt_error: "py_lt a b = Inl e \<Longrightarrow> e = TypeError"
  by (cases a; cases b) auto

lemma py_insort_error: "py_insort key x ys = Inl e \<Longrightarrow> e = TypeError"
  by (induction ys) (auto split: sum.splits bool.splits dest: py_lt_error)

lemma py_sort_error: "py_sort key xs = Inl e \<Longrightarrow> e = TypeError"
  by (induction xs arbitrary: e) (auto split: sum.splits dest: py_insort_error)

lemma sorted_two_related:
  assumes "sorted_wrt R ys" and "2 \<le> length ys" and "x \<in> set ys"
  shows "\<exists>y. R x y \<or> R y x"
proof -
  obtain a b rest where ys: "ys = a # b # rest"
    using assms(2) by (cases ys; cases "tl ys") auto
  show ?thesis
  proof (cases "x = a")
    case True
    then show ?thesis using assms(1) ys by auto
  next
    case False
    then have "x \<in> set (b # rest)" using assms(3) ys by simp
    then have "R a x" using assms(1) ys by auto
    then show ?thesis by blast
  qed
qed

lemma py_sort_null:
  assumes "2 \<le> length xs" and "list_ex (\<lambda>x. key x = JNull) xs"
  shows "py_sort key xs = Inl TypeError"
proof (cases "py_sort key xs")
  case (Inl e)
  then show ?thesis using py_sort_error by blast
next
  case (Inr ys)
  obtain x where x: "x \<in> set xs" "key x = JNull" using assms(2) by (auto simp: list_ex_iff)
  have ms: "mset ys = mset xs" using Inr by (rule py_sort_mset)
  have "x \<in> set ys" using x(1) mset_eq_setD[OF ms] by simp
  moreover have "2 \<le> length ys" using assms(1) mset_eq_length[OF ms] by simp
  ultimately obtain y where "py_lt (key y) (key x) = Inr False \<or> py_lt (key x) (key y) = Inr False"
    using sorted_two_related[OF py_sort_sorted[OF Inr]] by blast
  then show ?thesis using x(2) by (simp add: py_lt_null)
qed

lemma sorted_py_null:
  assumes "2 \<le> length xs" and "list_ex (\<lambda>x. key x = JNull) xs"
  shows "sorted_py key True xs = Inl TypeError"
  using py_sort_null[of "rev xs" key] assms by (simp add: sorted_py_def list_ex_iff)

section \<open>The loops of \<^verbatim>\<open>process_user_data\<close>\<close>

lemma validate_data_value: "validate_data data fields = Inr (has_fields data fields)"
  by (induction fields) (auto simp: subscript_def has_fields_def split: option.splits)

lemma subscript_present: "d k \<noteq> None \<Longrightarrow> subscript d k = Inr (dict_get d k)"
  by (auto simp: subscript_def dict_get_def)

lemma build_row_value:
  assumes "has_fields user [''id'', ''name'']" and "has_fields post [''id'', ''title'']"
      and "has_fields c [''id'', ''body'', ''email'']"
  shows "build_row (dict_get user ''id'') user post c = Inr (mk_row user post c)"
  using assms by (simp add: build_row_def has_fields_def subscript_present mk_row_def)

lemma comments_loop_value:
  assumes "has_fields user [''id'', ''name'']" and "has_fields post [''id'', ''title'']"
  shows "comments_loop (dict_get user ''id'') user post cs acc =
     Inr (acc @ map (mk_row user post) (filter (\<lambda>c. has_fields c [''id'', ''body'', ''email'']) cs))"
proof (induction cs arbitrary: acc)
  case Nil
  then show ?case by simp
next
  case (Cons c cs)
  show ?case
  proof (cases "has_fields c [''id'', ''body'', ''email'']")
    case True
    then show ?thesis
      using build_row_value[OF assms True] Cons.IH by (simp add: validate_data_value)
  next
    case False
    then show ?thesis using Cons.IH by (simp add: validate_data_value)
  qed
qed

lemma row_ok_mk_row:
  assumes "has_fields user [''id'', ''name'']" and "has_fields post [''id'', ''title'']"
      and "has_fields c [''id'', ''body'', ''email'']"
  shows "row_ok (mk_row user post c)"
  using assms
  by (auto simp: row_ok_def mk_row_def fieldnames_def has_fields_def dict_get_def)

lemma cell_mk_row:
  "cell (mk_row user post c) ''user_id'' = dict_get user ''id''"
  "cell (mk_row user post c) ''user_name'' = dict_get user ''name''"
  "cell (mk_row user post c) ''post_id'' = dict_get post ''id''"
  "cell (mk_row user post c) ''comment_id'' = dict_get c ''id''"
  by (simp_all add: cell_def mk_row_def)

lemma leaves_latest_comments:
  "leaves unique_ids strictly_desc (get_latest_comments_for_post post_id)"
  unfolding get_latest_comments_for_post_def
proof (rule leaves_bind[OF leaves_fetch_json[where P = "\<lambda>v. distinct (map (\<lambda>x. dict_get x ''id'') v)"]])
  show "unique_ids (Inr v) \<Longrightarrow> distinct (map (\<lambda>x. dict_get x ''id'') v)" for v
    by (simp add: unique_ids_def)
  show "distinct (map (\<lambda>x. dict_get x ''id'') x) \<Longrightarrow>
      leaves unique_ids strictly_desc
        (case sorted_py (\<lambda>x. dict_get x ''id'') True x of Inl e \<Rightarrow> Raise e | Inr s \<Rightarrow> Done (take 3 s))" for x
    using sorted_py_strict[of "\<lambda>x. dict_get x ''id''" x]
    by (auto split: sum.splits simp: strictly_desc_def)
qed

lemma leaves_latest_posts:
  "leaves unique_ids strictly_desc (get_latest_posts_for_user user_id)"
  unfolding get_latest_posts_for_user_def
proof (rule leaves_bind[OF leaves_fetch_json[where P = "\<lambda>v. distinct (map (\<lambda>x. dict_get x ''id'') v)"]])
  show "unique_ids (Inr v) \<Longrightarrow> distinct (map (\<lambda>x. dict_get x ''id'') v)" for v
    by (simp add: unique_ids_def)
  show "distinct (map (\<lambda>x. dict_get x ''id'') x) \<Longrightarrow>
      leaves unique_ids strictly_desc
        (case sorted_py (\<lambda>x. dict_get x ''id'') True x of Inl e \<Rightarrow> Raise e | Inr s \<Rightarrow> Done (take 5 s))" for x
    using sorted_py_strict[of "\<lambda>x. dict_get x ''id''" x]
    by (auto split: sum.splits simp: strictly_desc_def)
qed

lemma leaves_latest_posts_desc:
  "leaves (\<lambda>r. True) desc (get_latest_posts_for_user user_id)"
  unfolding get_latest_posts_for_user_def
proof (rule leaves_bind[OF leaves_True])
  show "leaves (\<lambda>r. True) desc
        (case sorted_py (\<lambda>x. dict_get x ''id'') True x of Inl e \<Rightarrow> Raise e | Inr s \<Rightarrow> Done (take 5 s))" for x
    using sorted_py_reverse(2)[of "\<lambda>x. dict_get x ''id''" x]
    by (auto split: sum.splits simp: desc_def)
qed

lemma leaves_posts_loop:
  assumes user: "has_fields user [''id'', ''name'']"
      and comments: "\<And>post_id. leaves R C (get_latest_comments_for_post post_id)"
      and base: "I [] []"
      and skip: "\<And>post posts new. I posts new \<Longrightarrow> I (post # posts) new"
      and step: "\<And>post posts cs new. has_fields post [''id'', ''title''] \<Longrightarrow> C cs \<Longrightarrow> I posts new \<Longrightarrow>
                 I (post # posts)
                   (map (mk_row user post) (filter (\<lambda>c. has_fields c [''id'', ''body'', ''email'']) cs) @ new)"
  shows "leaves R (\<lambda>rows. \<exists>new. rows = acc @ new \<and> I posts new)
           (posts_loop (dict_get user ''id'') user posts acc)"
proof (induction posts arbitrary: acc)
  case Nil
  show ?case using base by simp
next
  case (Cons post posts)
  show ?case
  proof (cases "has_fields post [''id'', ''title'']")
    case False
    have "leaves R (\<lambda>rows. \<exists>new. rows = acc @ new \<and> I (post # posts) new)
            (posts_loop (dict_get user ''id'') user posts acc)"
      by (rule leaves_mono[OF Cons.IH[of acc]]) (auto intro: skip)
    then show ?thesis using False by (simp add: validate_data_value)
  next
    case True
    let ?rows = "\<lambda>cs. map (mk_row user post) (filter (\<lambda>c. has_fields c [''id'', ''body'', ''email'']) cs)"
    have present: "post ''id'' \<noteq> None" using True by (simp add: has_fields_def)
    have eq: "posts_loop (dict_get user ''id'') user (post # posts) acc =
        coro_bind (get_latest_comments_for_post (dict_get post ''id''))
          (\<lambda>cs. posts_loop (dict_get user ''id'') user posts (acc @ ?rows cs))"
      using True subscript_present[of post "''id''"] present
      by (simp add: validate_data_value comments_loop_value[OF user True])
    have "leaves R (\<lambda>rows. \<exists>new. rows = acc @ new \<and> I (post # posts) new)
            (posts_loop (dict_get user ''id'') user posts (acc @ ?rows cs))" if c: "C cs" for cs
    proof (rule leaves_mono[OF Cons.IH[of "acc @ ?rows cs"]])
      fix rows assume "\<exists>new. rows = (acc @ ?rows cs) @ new \<and> I posts new"
      then obtain new where n: "rows = acc @ (?rows cs @ new)" "I posts new" by auto
      show "\<exists>new. rows = acc @ new \<and> I (post # posts) new"
        using n step[OF True c n(2)] by blast
    qed
    then show ?thesis unfolding eq by (rule leaves_bind[OF comments])
  qed
qed

lemma leaves_process_user_data:
  assumes posts: "\<And>user_id. leaves R S (get_latest_posts_for_user user_id)"
      and comments: "\<And>post_id. leaves R C (get_latest_comments_for_post post_id)"
      and base: "\<And>posts. I posts []"
      and skip: "\<And>post posts new. I posts new \<Longrightarrow> I (post # posts) new"
      and step: "\<And>post posts cs new. has_fields user [''id'', ''name''] \<Longrightarrow>
                 has_fields post [''id'', ''title''] \<Longrightarrow> C cs \<Longrightarrow> I posts new \<Longrightarrow>
                 I (post # posts)
                   (map (mk_row user post) (filter (\<lambda>c. has_fields c [''id'', ''body'', ''email'']) cs) @ new)"
      and final: "\<And>posts rows. S posts \<Longrightarrow> I posts rows \<Longrightarrow> P rows"
      and empty: "P []"
  shows "leaves R P (process_user_data user)"
proof (cases "has_fields user [''id'', ''name'']")
  case False
  then show ?thesis using empty by (simp add: process_user_data_def validate_data_value)
next
  case True
  have present: "user ''id'' \<noteq> None" using True by (simp add: has_fields_def)
  have eq: "process_user_data user =
      coro_bind (get_latest_posts_for_user (dict_get user ''id''))
        (\<lambda>posts. posts_loop (dict_get user ''id'') user posts [])"
    using True subscript_present[of user "''id''"] present
    by (simp add: process_user_data_def validate_data_value)
  have "leaves R P (posts_loop (dict_get user ''id'') user ps [])" if s: "S ps" for ps
  proof (rule leaves_mono[OF leaves_posts_loop[where I = I and posts = ps and acc = "[]",
            OF True comments]])
    show "I [] []" by (rule base)
    show "I posts new \<Longrightarrow> I (post # posts) new" for post posts new by (rule skip)
    show "has_fields post [''id'', ''title''] \<Longrightarrow> C cs \<Longrightarrow> I posts new \<Longrightarrow>
        I (post # posts)
          (map (mk_row user post) (filter (\<lambda>c. has_fields c [''id'', ''body'', ''email'']) cs) @ new)"
      for post posts cs new by (rule step[OF True])
    show "\<exists>new. x = [] @ new \<and> I ps new \<Longrightarrow> P x" for x using final[OF s] by auto
  qed
  then show ?thesis unfolding eq by (rule leaves_bind[OF posts])
qed

lemma leaves_process_rows:
  "leaves (\<lambda>r. True) (list_all (user_row user)) (process_user_data user)"
proof (rule leaves_process_user_data[where S = "\<lambda>x. True" and C = "\<lambda>x. True"
      and I = "\<lambda>posts new. list_all (user_row user) new"])
  show "leaves (\<lambda>r. True) (\<lambda>x. True) (get_latest_posts_for_user user_id)" for user_id
    by (rule leaves_True)
  show "leaves (\<lambda>r. True) (\<lambda>x. True) (get_latest_comments_for_post post_id)" for post_id
    by (rule leaves_True)
  show "has_fields user [''id'', ''name''] \<Longrightarrow> has_fields post [''id'', ''title''] \<Longrightarrow> True \<Longrightarrow>
      list_all (user_row user) new \<Longrightarrow>
      list_all (user_row user)
        (map (mk_row user post) (filter (\<lambda>c. has_fields c [''id'', ''body'', ''email'']) cs) @ new)"
    for post cs new
    by (auto simp: list_all_iff user_row_def cell_mk_row intro: row_ok_mk_row)
qed auto

lemma leaves_process_post_desc:
  "leaves (\<lambda>r. True) (sorted_wrt post_desc) (process_user_data user)"
proof (rule leaves_process_user_data[where S = desc and C = "\<lambda>x. True"
      and I = "\<lambda>posts new. desc posts \<longrightarrow>
          sorted_wrt post_desc new
          \<and> (\<forall>r\<in>set new. cell r ''post_id'' \<in> (\<lambda>p. dict_get p ''id'') ` set posts)"])
  show "leaves (\<lambda>r. True) desc (get_latest_posts_for_user user_id)" for user_id
    by (rule leaves_latest_posts_desc)
  show "leaves (\<lambda>r. True) (\<lambda>x. True) (get_latest_comments_for_post post_id)" for post_id
    by (rule leaves_True)
  show "desc posts \<longrightarrow> sorted_wrt post_desc new
          \<and> (\<forall>r\<in>set new. cell r ''post_id'' \<in> (\<lambda>p. dict_get p ''id'') ` set posts) \<Longrightarrow>
        desc (post # posts) \<longrightarrow> sorted_wrt post_desc new
          \<and> (\<forall>r\<in>set new. cell r ''post_id'' \<in> (\<lambda>p. dict_get p ''id'') ` set (post # posts))"
    for post posts new
    by (auto simp: desc_def)
  show "desc (post # posts) \<longrightarrow>
          sorted_wrt post_desc
            (map (mk_row user post) (filter (\<lambda>c. has_fields c [''id'', ''body'', ''email'']) cs) @ new)
          \<and> (\<forall>r\<in>set (map (mk_row user post) (filter (\<lambda>c. has_fields c [''id'', ''body'', ''email'']) cs) @ new).
               cell r ''post_id'' \<in> (\<lambda>p. dict_get p ''id'') ` set (post # posts))"
    if hp: "has_fields post [''id'', ''title'']"
      and ih: "desc posts \<longrightarrow> sorted_wrt post_desc new
          \<and> (\<forall>r\<in>set new. cell r ''post_id'' \<in> (\<lambda>p. dict_get p ''id'') ` set posts)"
    for post posts cs new
  proof
    assume sd: "desc (post # posts)"
    let ?valid = "filter (\<lambda>c. has_fields c [''id'', ''body'', ''email'']) cs"
    have above: "\<forall>q\<in>set posts. py_lt (dict_get post ''id'') (dict_get q ''id'') = Inr False"
      and sdp: "desc posts"
      using sd by (auto simp: desc_def)
    have new: "sorted_wrt post_desc new"
      and ids: "\<forall>r\<in>set new. cell r ''post_id'' \<in> (\<lambda>p. dict_get p ''id'') ` set posts"
      using ih sdp by auto
    have "dict_get post ''id'' \<noteq> JNull" using hp by (auto simp: has_fields_def dict_get_def)
    then have refl: "py_lt (dict_get post ''id'') (dict_get post ''id'') = Inr False"
      by (rule py_lt_refl)
    have own: "sorted_wrt post_desc (map (mk_row user post) ?valid)"
      unfolding sorted_wrt_map
      by (rule sorted_wrt_mono_rel[OF _ sorted_wrt_true]) (simp add: post_desc_def cell_mk_row refl)
    have cross: "post_desc r1 r2"
      if r1: "r1 \<in> set (map (mk_row user post) ?valid)" and r2: "r2 \<in> set new" for r1 r2
    proof -
      have "cell r1 ''post_id'' = dict_get post ''id''" using r1 by (auto simp: cell_mk_row)
      moreover obtain q where "q \<in> set posts" "cell r2 ''post_id'' = dict_get q ''id''"
        using ids r2 by auto
      ultimately show ?thesis using above by (simp add: post_desc_def)
    qed
    show "sorted_wrt post_desc (map (mk_row user post) ?valid @ new)
          \<and> (\<forall>r\<in>set (map (mk_row user post) ?valid @ new).
               cell r ''post_id'' \<in> (\<lambda>p. dict_get p ''id'') ` set (post # posts))"
      using own new cross ids by (auto simp: sorted_wrt_append cell_mk_row)
  qed
qed auto

lemma leaves_process_order:
  "leaves unique_ids (sorted_wrt row_before) (process_user_data user)"
proof (rule leaves_process_user_data[where S = strictly_desc and C = strictly_desc
      and I = "\<lambda>posts new. strictly_desc posts \<longrightarrow>
          sorted_wrt row_before new
          \<and> (\<forall>r\<in>set new. cell r ''post_id'' \<in> (\<lambda>p. dict_get p ''id'') ` set posts)"])
  show "leaves unique_ids strictly_desc (get_latest_posts_for_user user_id)" for user_id
    by (rule leaves_latest_posts)
  show "leaves unique_ids strictly_desc (get_latest_comments_for_post post_id)" for post_id
    by (rule leaves_latest_comments)
  show "strictly_desc posts \<longrightarrow> sorted_wrt row_before new
          \<and> (\<forall>r\<in>set new. cell r ''post_id'' \<in> (\<lambda>p. dict_get p ''id'') ` set posts) \<Longrightarrow>
        strictly_desc (post # posts) \<longrightarrow> sorted_wrt row_before new
          \<and> (\<forall>r\<in>set new. cell r ''post_id'' \<in> (\<lambda>p. dict_get p ''id'') ` set (post # posts))"
    for post posts new
    by (auto simp: strictly_desc_def)
  show "strictly_desc (post # posts) \<longrightarrow>
          sorted_wrt row_before
            (map (mk_row user post) (filter (\<lambda>c. has_fields c [''id'', ''body'', ''email'']) cs) @ new)
          \<and> (\<forall>r\<in>set (map (mk_row user post) (filter (\<lambda>c. has_fields c [''id'', ''body'', ''email'']) cs) @ new).
               cell r ''post_id'' \<in> (\<lambda>p. dict_get p ''id'') ` set (post # posts))"
    if cs: "strictly_desc cs"
      and ih: "strictly_desc posts \<longrightarrow> sorted_wrt row_before new
          \<and> (\<forall>r\<in>set new. cell r ''post_id'' \<in> (\<lambda>p. dict_get p ''id'') ` set posts)"
    for post posts cs new
  proof
    assume sd: "strictly_desc (post # posts)"
    let ?valid = "filter (\<lambda>c. has_fields c [''id'', ''body'', ''email'']) cs"
    have below: "\<forall>q\<in>set posts. py_lt (dict_get q ''id'') (dict_get post ''id'') = Inr True"
      and sdp: "strictly_desc posts"
      using sd by (auto simp: strictly_desc_def)
    have new: "sorted_wrt row_before new"
      and ids: "\<forall>r\<in>set new. cell r ''post_id'' \<in> (\<lambda>p. dict_get p ''id'') ` set posts"
      using ih sdp by auto
    have "sorted_wrt (\<lambda>a b. py_lt (dict_get b ''id'') (dict_get a ''id'') = Inr True) ?valid"
      using cs by (simp add: strictly_desc_def sorted_wrt_filter)
    then have own: "sorted_wrt row_before (map (mk_row user post) ?valid)"
      unfolding sorted_wrt_map
      by (rule sorted_wrt_mono_rel[rotated]) (simp add: row_before_def cell_mk_row)
    have cross: "row_before r1 r2"
      if r1: "r1 \<in> set (map (mk_row user post) ?valid)" and r2: "r2 \<in> set new" for r1 r2
    proof -
      have "cell r1 ''post_id'' = dict_get post ''id''" using r1 by (auto simp: cell_mk_row)
      moreover obtain q where "q \<in> set posts" "cell r2 ''post_id'' = dict_get q ''id''"
        using ids r2 by auto
      ultimately show ?thesis using below by (simp add: row_before_def)
    qed
    show "sorted_wrt row_before (map (mk_row user post) ?valid @ new)
          \<and> (\<forall>r\<in>set (map (mk_row user post) ?valid @ new).
               cell r ''post_id'' \<in> (\<lambda>p. dict_get p ''id'') ` set (post # posts))"
      using own new cross ids by (auto simp: sorted_wrt_append cell_mk_row)
  qed
qed auto

section \<open>The run\<close>

lemma main_fetch_rows:
  assumes "main_fetch net sched s = (Some (Inr rows), s2)"
  obtains users s1 results where "exec net get_users s = (Inr users, s1)"
    and "gather net sched (map process_user_data users) s1 = (Some (Inr results), s2)"
    and "rows = concat results"
  using assms unfolding main_fetch_def
  by (auto split: prod.splits sum.splits option.splits)

lemma gather_process:
  assumes l: "\<And>user. leaves R (P user) (process_user_data user)"
      and n: "\<And>t u. R (fst (net t u))"
      and g: "gather net sched (map process_user_data users) s = (Some (Inr results), s')"
  shows "list_all2 P users results"
proof -
  have "list_all2 (leaves R) (map P users) (map process_user_data users)"
    using l by (simp add: list_all2_conv_all_nth)
  from gather_results[OF this n g] show ?thesis by (simp add: list_all2_map1)
qed

lemma main_fetch_row_ok:
  assumes "main_fetch net sched s = (Some (Inr rows), s2)"
  shows "list_all row_ok rows"
proof -
  from assms obtain users s1 results where
    g: "gather net sched (map process_user_data users) s1 = (Some (Inr results), s2)"
    and r: "rows = concat results" by (rule main_fetch_rows)
  have "list_all2 (\<lambda>u. list_all (user_row u)) users results"
    by (rule gather_process[OF leaves_process_rows _ g]) simp
  then have "\<forall>b\<in>set results. list_all row_ok b"
    by (fastforce simp: list_all2_conv_all_nth in_set_conv_nth list_all_iff user_row_def)
  then show ?thesis using r by (auto simp: list_all_iff)
qed

lemma writerows_ok:
  "list_all row_ok rows \<Longrightarrow> fst (writerows fieldnames rows out) = None"
proof (induction rows arbitrary: out)
  case Nil
  then show ?case by simp
next
  case (Cons r rows)
  then have "map fst r = fieldnames" by (simp add: row_ok_def)
  then have "\<exists>cells. dict_to_list fieldnames r = Inr cells" by (simp add: dict_to_list_def)
  then show ?case using Cons by auto
qed

lemma even_ids_int: "int_ids users \<Longrightarrow> even_ids users = Inr (filter (\<lambda>u. even (id_of u)) users)"
proof (induction users)
  case Nil
  then show ?case by simp
next
  case (Cons u users)
  then have "dict_get u ''id'' = JInt (id_of u)" by (simp add: int_ids_def key_int)
  moreover have "even_ids users = Inr (filter (\<lambda>u. even (id_of u)) users)"
    using Cons by (simp add: int_ids_def)
  ultimately show ?case by (auto simp: even_iff_mod_2_eq_zero)
qed

lemma even_ids_null:
  "list_all (\<lambda>u. dict_get u ''id'' = JNull \<or> is_int (dict_get u ''id'')) users \<Longrightarrow>
   list_ex (\<lambda>u. dict_get u ''id'' = JNull) users \<Longrightarrow> even_ids users = Inl TypeError"
proof (induction users)
  case Nil
  then show ?case by simp
next
  case (Cons u users)
  show ?case
  proof (cases "dict_get u ''id''")
    case JNull
    then show ?thesis by simp
  next
    case (JInt i)
    then have "even_ids users = Inl TypeError" using Cons by simp
    then show ?thesis using JInt by simp
  next
    case (JStr x)
    then show ?thesis using Cons.prems by simp
  qed
qed

lemma main_get_users_error:
  "exec net get_users s = (Inl e, s1) \<Longrightarrow> main net sched s fs = (Some (Inl e), fs)"
  by (simp add: main_def main_fetch_def)

lemma main_no_users:
  "exec net get_users s = (Inr [], s1) \<Longrightarrow> main net sched s fs = (Some (Inr ()), fs)"
  by (simp add: main_def main_fetch_def gather_empty main_write_def)

lemma example_fetch_users:
  "exec example_net (fetch_json USERS_URL) 0 = (Inr example_users, 1)"
  by (rule exec_fetch_ok) (simp add: example_net_def example_api_def USERS_URL_def BASE_URL_def)

section \<open>The responses of a run\<close>























section \<open>The latest posts and comments\<close>

text \<open>
  On a list of records with integer \<^verbatim>\<open>id\<close>s, \<^verbatim>\<open>get_latest_posts_for_user\<close> returns at
  most 5 posts: exactly those with the highest \<^verbatim>\<open>id\<close>s, in descending order of \<^verbatim>\<open>id\<close>,
  or all of them when fewer than 5 are available; \<^verbatim>\<open>get_latest_comments_for_post\<close> does
  the same with at most 3 comments; records that share an \<^verbatim>\<open>id\<close> keep their input
  order.
\<close>

theorem latest_posts_and_comments:
  assumes "int_ids recs"
  shows "(exec net (fetch_json (POSTS_URL @ ''?userId='' @ py_str user_id)) s = (Inr recs, s') \<longrightarrow>
            (\<exists>latest. exec net (get_latest_posts_for_user user_id) s = (Inr latest, s')
               \<and> latest_of 5 recs latest))
       \<and> (exec net (fetch_json (COMMENTS_URL @ ''?postId='' @ py_str post_id)) s = (Inr recs, s') \<longrightarrow>
            (\<exists>latest. exec net (get_latest_comments_for_post post_id) s = (Inr latest, s')
               \<and> latest_of 3 recs latest))"
proof -
  obtain ys where ys: "sorted_py (\<lambda>x. dict_get x ''id'') True recs = Inr ys"
    using sorted_py_total[of "\<lambda>x. dict_get x ''id''" recs] assms by (auto simp: int_ids_def)
  have "latest_of 5 recs (take 5 ys)" "latest_of 3 recs (take 3 ys)"
    using sorted_py_latest[OF assms ys] by blast+
  then show ?thesis
    using ys by (auto simp: get_latest_posts_for_user_def get_latest_comments_for_post_def exec_bind)
qed

theorem latest_posts_and_comments_witness:
  "int_ids example_recs
   \<and> (\<exists>latest. exec (steady example_recs) (get_latest_posts_for_user (JInt 2)) 0
          = (Inr latest, 1) \<and> latest_of 5 example_recs latest)
   \<and> (\<exists>latest. exec (steady example_recs) (get_latest_comments_for_post (JInt 10)) 0
          = (Inr latest, 1) \<and> latest_of 3 example_recs latest)"
proof -
  have i: "int_ids example_recs"
    by (simp add: int_ids_def example_recs_def dict_get_def)
  have f: "exec (steady example_recs) (fetch_json u) 0 = (Inr example_recs, 1)" for u
    by (rule exec_fetch_ok) (simp add: steady_def)
  show ?thesis
    using i f latest_posts_and_comments[OF i, of "steady example_recs" "JInt 2" 0 1 "JInt 10"]
    by simp
qed

lemma example_latest:
  "exec (steady example_recs) (get_latest_posts_for_user (JInt 2)) 0
     = (Inr [[''id'' \<mapsto> JInt 7, ''title'' \<mapsto> JStr ''g''], [''id'' \<mapsto> JInt 7, ''title'' \<mapsto> JStr ''h''],
             [''id'' \<mapsto> JInt 6, ''title'' \<mapsto> JStr ''f''], [''id'' \<mapsto> JInt 5, ''title'' \<mapsto> JStr ''e''],
             [''id'' \<mapsto> JInt 3, ''title'' \<mapsto> JStr ''c'']], 1)"
  by (simp add: get_latest_posts_for_user_def exec_bind fetch_json_unfold steady_def example_recs_def
      sorted_py_def dict_get_def)

text \<open>
  Claim C4. For every list of posts the API returns for a user,
  \<^verbatim>\<open>get_latest_posts_for_user\<close> returns at most 5 posts, those with the highest
  \<^verbatim>\<open>id\<close>s in descending order, and \<^verbatim>\<open>get_latest_comments_for_post\<close> at most 3
  comments, with a stable sort. The code does not do so on every list: when the list
  has two records or more and one of them has no \<^verbatim>\<open>id\<close>, or a null one, the sort
  compares \<^verbatim>\<open>None\<close> with another key and raises \<^verbatim>\<open>TypeError\<close>. The record is one that
  \<^verbatim>\<open>validate_data\<close> is there to skip, but the sort runs first, and the exception ends
  the processing of the user.
\<close>

theorem latest_posts_missing_id_raises:
  assumes "2 \<le> length recs" and "list_ex (\<lambda>r. dict_get r ''id'' = JNull) recs"
  shows "(exec net (fetch_json (POSTS_URL @ ''?userId='' @ py_str user_id)) s = (Inr recs, s') \<longrightarrow>
            exec net (get_latest_posts_for_user user_id) s = (Inl TypeError, s'))
       \<and> (exec net (fetch_json (COMMENTS_URL @ ''?postId='' @ py_str post_id)) s = (Inr recs, s') \<longrightarrow>
            exec net (get_latest_comments_for_post post_id) s = (Inl TypeError, s'))"
  using sorted_py_null[OF assms]
  by (simp add: get_latest_posts_for_user_def get_latest_comments_for_post_def exec_bind)

theorem latest_posts_missing_id_raises_witness:
  "exec (steady gap_posts) (get_latest_posts_for_user (JInt 2)) 0 = (Inl TypeError, 1)
   \<and> exec (steady gap_posts) (get_latest_comments_for_post (JInt 10)) 0 = (Inl TypeError, 1)
   \<and> 2 \<le> length gap_posts
   \<and> list_ex (\<lambda>r. dict_get r ''id'' = JNull) gap_posts
   \<and> validate_data (gap_posts ! 1) [''id'', ''title''] = Inr False
   \<and> exec (steady gap_posts)
        (process_user_data [''id'' \<mapsto> JInt 2, ''name'' \<mapsto> JStr ''B'']) 0 = (Inl TypeError, 1)"
proof -
  have a: "2 \<le> length gap_posts" "list_ex (\<lambda>r. dict_get r ''id'' = JNull) gap_posts"
    by (simp_all add: gap_posts_def dict_get_def)
  have f: "exec (steady gap_posts) (fetch_json u) 0 = (Inr gap_posts, 1)" for u
    by (rule exec_fetch_ok) (simp add: steady_def)
  have v: "validate_data (gap_posts ! 1) [''id'', ''title''] = Inr False"
    by (simp add: gap_posts_def)
  have p: "exec (steady gap_posts) (get_latest_posts_for_user (JInt 2)) 0 = (Inl TypeError, 1)"
    using f latest_posts_missing_id_raises[OF a, of "steady gap_posts" "JInt 2" 0 1 "JInt 10"] by simp
  have "exec (steady gap_posts)
        (process_user_data [''id'' \<mapsto> JInt 2, ''name'' \<mapsto> JStr ''B'']) 0 = (Inl TypeError, 1)"
    using p by (simp add: process_user_data_def subscript_def exec_bind)
  then show ?thesis
    using a f v latest_posts_missing_id_raises[OF a, of "steady gap_posts" "JInt 2" 0 1 "JInt 10"]
    by simp
qed

section \<open>Validation\<close>

text \<open>
  Claim C6. For every record and every list of required field names,
  \<^verbatim>\<open>validate_data\<close> returns true if and only if each required field name is a key of
  the record and its value is not null; otherwise it returns false. It never raises:
  its value is always a boolean.
\<close>

theorem validate_data_iff:
  "validate_data data required_fields =
     Inr (\<forall>f\<in>set required_fields. \<exists>v. data f = Some v \<and> v \<noteq> JNull)"
  by (induction required_fields) (auto simp: subscript_def split: option.splits)

theorem validate_data_iff_witness:
  "validate_data [''id'' \<mapsto> JInt 2, ''name'' \<mapsto> JStr ''B''] [''id'', ''name''] = Inr True
   \<and> validate_data [''id'' \<mapsto> JInt 2, ''name'' \<mapsto> JNull] [''id'', ''name''] = Inr False
   \<and> validate_data [''id'' \<mapsto> JInt 2] [''id'', ''name''] = Inr False"
  using validate_data_iff[of "[''id'' \<mapsto> JInt 2, ''name'' \<mapsto> JStr ''B'']" "[''id'', ''name'']"]
    validate_data_iff[of "[''id'' \<mapsto> JInt 2, ''name'' \<mapsto> JNull]" "[''id'', ''name'']"]
    validate_data_iff[of "[''id'' \<mapsto> JInt 2]" "[''id'', ''name'']"]
  by simp

section \<open>The retries of a fetch\<close>

text \<open>
  Claim C7. For every URL and response value, a fetch that fails twice and succeeds on
  the third attempt returns to its caller what a fetch that succeeds at once returns:
  the caller goes on with the same value.
\<close>

theorem fetch_retry_transparent:
  assumes "net s url = (Inl e1, s1)" and "net s1 url = (Inl e2, s2)" and "net s2 url = (Inr v, s3)"
      and "net' t url = (Inr v, t1)"
  shows "fst (exec net (fetch_json url) s) = fst (exec net' (fetch_json url) t)
       \<and> fst (exec net (fetch_json url) s) = Inr v
       \<and> exec net (coro_bind (fetch_json url) k) s = exec net (k v) s3
       \<and> exec net' (coro_bind (fetch_json url) k') t = exec net' (k' v) t1"
  using assms by (simp add: fetch_json_unfold exec_bind)

theorem fetch_retry_transparent_witness:
  "fst (exec (flaky example_recs) (fetch_json USERS_URL) 0)
     = fst (exec (steady example_recs) (fetch_json USERS_URL) 0)
   \<and> fst (exec (flaky example_recs) (fetch_json USERS_URL) 0) = Inr example_recs
   \<and> exec (flaky example_recs) (coro_bind (fetch_json USERS_URL) Done) 0
       = exec (flaky example_recs) (Done example_recs) 3
   \<and> exec (steady example_recs) (coro_bind (fetch_json USERS_URL) Done) 0
       = exec (steady example_recs) (Done example_recs) 1"
proof -
  have a: "flaky example_recs 0 USERS_URL = (Inl TimeoutError, 1)"
    "flaky example_recs 1 USERS_URL = (Inl TimeoutError, 2)"
    "flaky example_recs 2 USERS_URL = (Inr example_recs, 3)"
    "steady example_recs 0 USERS_URL = (Inr example_recs, 1)"
    by (simp_all add: flaky_def steady_def)
  show ?thesis
    by (rule fetch_retry_transparent[where net = "flaky example_recs"
          and net' = "steady example_recs" and k = Done and k' = Done, OF a])
qed

text \<open>
  Claim C3, as the code has it. \<^verbatim>\<open>fetch_json\<close> makes a first attempt and, after each
  failed attempt but the third, waits and tries again: 3 attempts at most. It waits 4
  after the first failed attempt and 4 again after the second; after the third it
  does not wait but raises. The wait after the failed attempt number \<open>n\<close> is
  \<open>max 4 (min (2 ^ (n - 1)) 10)\<close>, which is 4 for the first two attempts.
\<close>

theorem fetch_json_retry_policy:
  "trace net (fetch_json url) s =
     (case net s url of
        (Inr v, s1) \<Rightarrow> [Requested url]
      | (Inl e1, s1) \<Rightarrow>
          (case net s1 url of
             (Inr v, s2) \<Rightarrow> [Requested url, Slept 4, Requested url]
           | (Inl e2, s2) \<Rightarrow> [Requested url, Slept 4, Requested url, Slept 4, Requested url]))
   \<and> exec net (fetch_json url) s =
     (case net s url of
        (Inr v, s1) \<Rightarrow> (Inr v, s1)
      | (Inl e1, s1) \<Rightarrow>
          (case net s1 url of
             (Inr v, s2) \<Rightarrow> (Inr v, s2)
           | (Inl e2, s2) \<Rightarrow>
               (case net s2 url of
                  (Inr v, s3) \<Rightarrow> (Inr v, s3)
                | (Inl e3, s3) \<Rightarrow> (Inl (RetryError e3), s3))))
   \<and> attempts (trace net (fetch_json url) s) \<le> 3
   \<and> waits (trace net (fetch_json url) s)
       = map (wait_exponential 1 4 10) [1..<attempts (trace net (fetch_json url) s)]
   \<and> wait_exponential 1 4 10 n = max 4 (min (2 ^ (n - 1)) 10)
   \<and> wait_exponential 1 4 10 1 = 4 \<and> wait_exponential 1 4 10 2 = 4"
proof -
  obtain r1 s1 where n1: "net s url = (r1, s1)" by (cases "net s url")
  obtain r2 s2 where n2: "net s1 url = (r2, s2)" by (cases "net s1 url")
  obtain r3 s3 where n3: "net s2 url = (r3, s3)" by (cases "net s2 url")
  have w: "wait_exponential 1 4 10 (Suc 0) = 4" "wait_exponential 1 4 10 (Suc (Suc 0)) = 4"
    "wait_exponential 1 4 10 1 = 4" "wait_exponential 1 4 10 2 = 4"
    by (simp_all add: wait_exponential_def)
  have "trace net (fetch_json url) s =
     (case net s url of
        (Inr v, s1) \<Rightarrow> [Requested url]
      | (Inl e1, s1) \<Rightarrow>
          (case net s1 url of
             (Inr v, s2) \<Rightarrow> [Requested url, Slept 4, Requested url]
           | (Inl e2, s2) \<Rightarrow> [Requested url, Slept 4, Requested url, Slept 4, Requested url]))"
    using n1 n2 n3 by (cases r1; cases r2; cases r3) (simp_all add: fetch_json_unfold)
  moreover have "exec net (fetch_json url) s =
     (case net s url of
        (Inr v, s1) \<Rightarrow> (Inr v, s1)
      | (Inl e1, s1) \<Rightarrow>
          (case net s1 url of
             (Inr v, s2) \<Rightarrow> (Inr v, s2)
           | (Inl e2, s2) \<Rightarrow>
               (case net s2 url of
                  (Inr v, s3) \<Rightarrow> (Inr v, s3)
                | (Inl e3, s3) \<Rightarrow> (Inl (RetryError e3), s3))))"
    using n1 n2 n3 by (cases r1; cases r2; cases r3) (simp_all add: fetch_json_unfold)
  moreover have "attempts (trace net (fetch_json url) s) \<le> 3
     \<and> waits (trace net (fetch_json url) s)
         = map (wait_exponential 1 4 10) [1..<attempts (trace net (fetch_json url) s)]"
    using n1 n2 n3 w by (cases r1; cases r2; cases r3) (simp_all add: fetch_json_unfold)
  moreover have "wait_exponential 1 4 10 n = max 4 (min (2 ^ (n - 1)) 10)"
    by (simp add: wait_exponential_def)
  ultimately show ?thesis using w by simp
qed

theorem fetch_json_retry_policy_witness:
  "trace failing (fetch_json USERS_URL) ()
     = [Requested USERS_URL, Slept 4, Requested USERS_URL, Slept 4, Requested USERS_URL]
   \<and> exec failing (fetch_json USERS_URL) () = (Inl (RetryError TimeoutError), ())
   \<and> trace (flaky example_recs) (fetch_json USERS_URL) 0
     = [Requested USERS_URL, Slept 4, Requested USERS_URL, Slept 4, Requested USERS_URL]
   \<and> exec (flaky example_recs) (fetch_json USERS_URL) 0 = (Inr example_recs, 3)
   \<and> trace (flaky example_recs) (fetch_json USERS_URL) 1
     = [Requested USERS_URL, Slept 4, Requested USERS_URL]
   \<and> trace (steady example_recs) (fetch_json USERS_URL) 0 = [Requested USERS_URL]
   \<and> exec (steady example_recs) (fetch_json USERS_URL) 0 = (Inr example_recs, 1)"
  using fetch_json_retry_policy[of failing USERS_URL "()" 1]
    fetch_json_retry_policy[of "flaky example_recs" USERS_URL 0 1]
    fetch_json_retry_policy[of "flaky example_recs" USERS_URL 1 1]
    fetch_json_retry_policy[of "steady example_recs" USERS_URL 0 1]
  by (simp add: failing_def flaky_def steady_def)

text \<open>
  Claim C3, as stated: the waits between successive attempts increase with each retry,
  along 4, 8 (or 10), 10. On an upstream that fails every attempt the two waits of a
  call are 4 and 4.
\<close>

theorem fetch_json_waits_counterexample:
  "waits (trace failing (fetch_json USERS_URL) ()) = [4, 4]
   \<and> \<not> sorted_wrt (<) (waits (trace failing (fetch_json USERS_URL) ()))
   \<and> wait_exponential 1 4 10 2 = 4"
  by (simp add: fetch_json_unfold failing_def wait_exponential_def)

section \<open>The qualifying users\<close>

text \<open>
  Claim C5. For every list of user records that the upstream fetch returns, each with
  an integer \<^verbatim>\<open>id\<close>, \<^verbatim>\<open>get_users\<close> returns exactly the sublist of the users whose
  \<^verbatim>\<open>id\<close> is even, in the order of the source. Users with an odd \<^verbatim>\<open>id\<close> contribute no
  output row: whatever the schedule of the tasks, every row of a run carries the \<^verbatim>\<open>id\<close>
  of a user with an even \<^verbatim>\<open>id\<close>.
\<close>

theorem get_users_even_ids:
  assumes "exec net (fetch_json USERS_URL) s = (Inr users, s1)" and "int_ids users"
  shows "exec net get_users s = (Inr (filter (\<lambda>u. even (id_of u)) users), s1)
       \<and> (main_fetch net sched s = (Some (Inr rows), s2) \<longrightarrow>
            list_all (\<lambda>r. \<exists>u\<in>set users. even (id_of u) \<and> cell r ''user_id'' = JInt (id_of u)) rows)"
proof -
  have gu: "exec net get_users s = (Inr (filter (\<lambda>u. even (id_of u)) users), s1)"
    using assms by (simp add: get_users_def exec_bind even_ids_int)
  have "list_all (\<lambda>r. \<exists>u\<in>set users. even (id_of u) \<and> cell r ''user_id'' = JInt (id_of u)) rows"
    if run: "main_fetch net sched s = (Some (Inr rows), s2)"
  proof -
    from run obtain us t1 results where
      u: "exec net get_users s = (Inr us, t1)"
      and g: "gather net sched (map process_user_data us) t1 = (Some (Inr results), s2)"
      and r: "rows = concat results" by (rule main_fetch_rows)
    have us: "us = filter (\<lambda>u. even (id_of u)) users" using u gu by simp
    have l: "list_all2 (\<lambda>u. list_all (user_row u)) us results"
      by (rule gather_process[OF leaves_process_rows _ g]) simp
    have "\<exists>u\<in>set users. even (id_of u) \<and> cell x ''user_id'' = JInt (id_of u)"
      if x: "x \<in> set rows" for x
    proof -
      from x r obtain b where b: "b \<in> set results" "x \<in> set b" by auto
      then obtain i where i: "i < length results" "b = results ! i" by (auto simp: in_set_conv_nth)
      have len: "length us = length results" using l by (rule list_all2_lengthD)
      have "list_all (user_row (us ! i)) (results ! i)" using l i(1) by (simp add: list_all2_conv_all_nth)
      then have c: "cell x ''user_id'' = dict_get (us ! i) ''id''"
        using b(2) i(2) by (auto simp: list_all_iff user_row_def)
      have m: "us ! i \<in> set us" using i(1) len by simp
      then have "us ! i \<in> set users" "even (id_of (us ! i))" using us by auto
      moreover have "dict_get (us ! i) ''id'' = JInt (id_of (us ! i))"
        using \<open>us ! i \<in> set users\<close> assms(2) by (auto simp: int_ids_def list_all_iff key_int)
      ultimately show ?thesis using c by auto
    qed
    then show ?thesis by (simp add: list_all_iff)
  qed
  then show ?thesis using gu by blast
qed

theorem get_users_even_ids_witness:
  "exec example_net get_users 0 = (Inr (filter (\<lambda>u. even (id_of u)) example_users), 1)
   \<and> filter (\<lambda>u. even (id_of u)) example_users
       = [[''id'' \<mapsto> JInt 2, ''name'' \<mapsto> JStr ''B''], [''id'' \<mapsto> JInt 4, ''name'' \<mapsto> JStr ''D'']]
   \<and> main_fetch example_net [0, 0, 0, 1, 1] 0 = (Some (Inr example_rows), 6)
   \<and> list_all (\<lambda>r. \<exists>u\<in>set example_users. even (id_of u) \<and> cell r ''user_id'' = JInt (id_of u))
        example_rows"
proof -
  have i: "int_ids example_users"
    by (simp add: int_ids_def example_users_def dict_get_def)
  have f: "filter (\<lambda>u. even (id_of u)) example_users
       = [[''id'' \<mapsto> JInt 2, ''name'' \<mapsto> JStr ''B''], [''id'' \<mapsto> JInt 4, ''name'' \<mapsto> JStr ''D'']]"
    by (simp add: example_users_def id_of_def dict_get_def)
  have r: "main_fetch example_net [0, 0, 0, 1, 1] 0 = (Some (Inr example_rows), 6)"
    by code_simp
  show ?thesis
    using get_users_even_ids[OF example_fetch_users i, of "[0, 0, 0, 1, 1]" example_rows 6] f r
    by simp
qed

text \<open>
  Claim C10. For some input, a fetched list of users with a record whose \<^verbatim>\<open>id\<close> is
  missing or null, \<^verbatim>\<open>get_users\<close> raises an exception (\<^verbatim>\<open>None % 2\<close>) instead of
  filtering the record out: the test for evenness runs before any validation, and the
  record aborts the run. It does so on every list of users whose \<^verbatim>\<open>id\<close>s are integers,
  missing or null, with at least one missing or null.
\<close>

theorem get_users_missing_id_raises:
  assumes "exec net (fetch_json USERS_URL) s = (Inr users, s1)"
      and "list_all (\<lambda>u. dict_get u ''id'' = JNull \<or> is_int (dict_get u ''id'')) users"
      and "list_ex (\<lambda>u. dict_get u ''id'' = JNull) users"
  shows "exec net get_users s = (Inl TypeError, s1)
       \<and> main net sched s fs = (Some (Inl TypeError), fs)"
proof -
  have "exec net get_users s = (Inl TypeError, s1)"
    using assms by (simp add: get_users_def exec_bind even_ids_null)
  then show ?thesis by (simp add: main_get_users_error)
qed

theorem get_users_missing_id_raises_witness:
  "exec (steady bad_users) get_users 0 = (Inl TypeError, 1)
   \<and> exec (steady [[''name'' \<mapsto> JStr ''C'']]) get_users 0 = (Inl TypeError, 1)
   \<and> exec (steady [[''id'' \<mapsto> JNull]]) get_users 0 = (Inl TypeError, 1)
   \<and> main (steady bad_users) [] 0 old_files = (Some (Inl TypeError), old_files)"
proof -
  have f: "exec (steady v) (fetch_json USERS_URL) 0 = (Inr v, 1)" for v
    by (rule exec_fetch_ok) (simp add: steady_def)
  have a: "list_all (\<lambda>u. dict_get u ''id'' = JNull \<or> is_int (dict_get u ''id'')) bad_users"
    "list_ex (\<lambda>u. dict_get u ''id'' = JNull) bad_users"
    by (simp_all add: bad_users_def dict_get_def)
  have b: "list_all (\<lambda>u. dict_get u ''id'' = JNull \<or> is_int (dict_get u ''id'')) [[''name'' \<mapsto> JStr ''C'']]"
    "list_ex (\<lambda>u. dict_get u ''id'' = JNull) [[''name'' \<mapsto> JStr ''C'']]"
    by (simp_all add: dict_get_def)
  have c: "list_all (\<lambda>u. dict_get u ''id'' = JNull \<or> is_int (dict_get u ''id'')) [[''id'' \<mapsto> JNull]]"
    "list_ex (\<lambda>u. dict_get u ''id'' = JNull) [[''id'' \<mapsto> JNull]]"
    by (simp_all add: dict_get_def)
  show ?thesis
    using get_users_missing_id_raises[OF f a, of "[]" old_files]
      get_users_missing_id_raises[OF f b, of "[]" old_files]
      get_users_missing_id_raises[OF f c, of "[]" old_files]
    by simp
qed

section \<open>The output rows\<close>

text \<open>
  Claim C9. Every output row that \<^verbatim>\<open>process_user_data\<close> emits has all its fields
  non-null: the \<^verbatim>\<open>id\<close> and \<^verbatim>\<open>name\<close> of the user, the \<^verbatim>\<open>id\<close> and \<^verbatim>\<open>title\<close> of the
  post and the \<^verbatim>\<open>id\<close>, \<^verbatim>\<open>body\<close> and \<^verbatim>\<open>email\<close> of the comment are validated before the
  row is built; and the keys of the row are exactly the seven fields of the CSV
  header. The same holds of every row of a run, whatever the schedule of the tasks.
\<close>

theorem output_rows_non_null:
  "(exec net (process_user_data user) s = (Inr rows, s') \<longrightarrow> list_all (user_row user) rows)
   \<and> (main_fetch net' sched t = (Some (Inr all_rows), t') \<longrightarrow> list_all row_ok all_rows)"
proof -
  have "list_all (user_row user) rows" if "exec net (process_user_data user) s = (Inr rows, s')"
    by (rule leaves_exec[OF leaves_process_rows _ that]) simp
  moreover have "list_all row_ok all_rows" if "main_fetch net' sched t = (Some (Inr all_rows), t')"
    using that by (rule main_fetch_row_ok)
  ultimately show ?thesis by simp
qed

theorem output_rows_non_null_witness:
  "exec example_net (process_user_data [''id'' \<mapsto> JInt 2, ''name'' \<mapsto> JStr ''B'']) 1
     = (Inr (take 2 example_rows), 4)
   \<and> list_all (user_row [''id'' \<mapsto> JInt 2, ''name'' \<mapsto> JStr ''B'']) (take 2 example_rows)
   \<and> main_fetch example_net [1, 0, 1, 0, 0] 0 = (Some (Inr example_rows), 6)
   \<and> list_all row_ok example_rows"
proof -
  have a: "exec example_net (process_user_data [''id'' \<mapsto> JInt 2, ''name'' \<mapsto> JStr ''B'']) 1
     = (Inr (take 2 example_rows), 4)"
    by code_simp
  have b: "main_fetch example_net [1, 0, 1, 0, 0] 0 = (Some (Inr example_rows), 6)"
    by code_simp
  show ?thesis
    using a b output_rows_non_null[of example_net "[''id'' \<mapsto> JInt 2, ''name'' \<mapsto> JStr ''B'']" 1
        "take 2 example_rows" 4 example_net "[1, 0, 1, 0, 0]" 0 example_rows 6]
    by blast
qed

text \<open>
  Claim C1. The final flat output is ordered as: the qualifying users in the order
  returned by \<^verbatim>\<open>get_users\<close>; within a user, the posts in descending order of \<^verbatim>\<open>id\<close>;
  within a post, the comments in descending order of \<^verbatim>\<open>id\<close>. This order does not
  depend on the order in which the concurrent tasks of the users run and complete.
  For every schedule under which the run completes, the output is the concatenation of
  one block of rows for each qualifying user, in the order of the users; in a block the
  \<^verbatim>\<open>id\<close> of the post never goes up; and when the records of each response have different
  \<^verbatim>\<open>id\<close>s, as the API promises, each block is in strictly descending order of the pair
  of the post's and the comment's \<^verbatim>\<open>id\<close>. On an upstream whose responses depend on the
  URL only, all the schedules under which the run completes give the same output.
\<close>

theorem output_order:
  assumes run: "main_fetch net sched s = (Some (Inr rows), s2)"
  shows "\<exists>users s1 blocks.
           exec net get_users s = (Inr users, s1) \<and> rows = concat blocks
         \<and> list_all2 (\<lambda>u b. list_all (user_row u) b) users blocks
         \<and> list_all (sorted_wrt post_desc) blocks
         \<and> ((\<forall>t url. unique_ids (fst (net t url))) \<longrightarrow> list_all (sorted_wrt row_before) blocks)
         \<and> ((\<forall>t url. fst (net t url) = api url) \<longrightarrow>
              (\<forall>sched' rows' s2'. main_fetch net sched' s = (Some (Inr rows'), s2') \<longrightarrow> rows' = rows))"
proof -
  from run obtain users s1 results where
    u: "exec net get_users s = (Inr users, s1)"
    and g: "gather net sched (map process_user_data users) s1 = (Some (Inr results), s2)"
    and r: "rows = concat results" by (rule main_fetch_rows)
  have a: "list_all2 (\<lambda>u b. list_all (user_row u) b) users results"
    by (rule gather_process[OF leaves_process_rows _ g]) simp
  have "list_all2 (\<lambda>u b. sorted_wrt post_desc b) users results"
    by (rule gather_process[OF leaves_process_post_desc _ g]) simp
  then have b: "list_all (sorted_wrt post_desc) results"
    by (auto simp: list_all2_conv_all_nth list_all_iff in_set_conv_nth)
  have c: "list_all (sorted_wrt row_before) results" if uq: "\<forall>t url. unique_ids (fst (net t url))"
  proof -
    have "list_all2 (\<lambda>u b. sorted_wrt row_before b) users results"
      by (rule gather_process[OF leaves_process_order _ g]) (simp add: uq)
    then show ?thesis by (auto simp: list_all2_conv_all_nth list_all_iff in_set_conv_nth)
  qed
  have d: "rows' = rows"
    if st: "\<forall>t url. fst (net t url) = api url"
      and run': "main_fetch net sched' s = (Some (Inr rows'), s2')" for sched' rows' s2'
  proof -
    from run' obtain users' s1' results' where
      u': "exec net get_users s = (Inr users', s1')"
      and g': "gather net sched' (map process_user_data users') s1' = (Some (Inr results'), s2')"
      and r': "rows' = concat results'" by (rule main_fetch_rows)
    have same: "users' = users" "s1' = s1" using u u' by simp_all
    have "map (result_on api) (map process_user_data users) = map Inr results"
      by (rule gather_result_on[OF _ g]) (simp add: st)
    moreover have "map (result_on api) (map process_user_data users) = map Inr results'"
      using g' unfolding same by (rule gather_result_on[rotated]) (simp add: st)
    ultimately have "map Inr results = (map Inr results' :: (py_error + row list) list)" by simp
    then have "results = results'" by (simp add: inj_map_eq_map[OF inj_Inr])
    then show ?thesis using r r' by simp
  qed
  show ?thesis using u r a b c d by blast
qed

theorem output_order_witness:
  "main_fetch example_net [0, 0, 0, 1, 1] 0 = (Some (Inr example_rows), 6)
   \<and> main_fetch example_net [1, 0, 1, 0, 0] 0 = (Some (Inr example_rows), 6)
   \<and> (\<forall>t url. unique_ids (fst (example_net t url)))
   \<and> (\<forall>t url. fst (example_net t url) = example_api url)
   \<and> (\<exists>users s1 blocks.
           exec example_net get_users 0 = (Inr users, s1) \<and> example_rows = concat blocks
         \<and> list_all2 (\<lambda>u b. list_all (user_row u) b) users blocks
         \<and> list_all (sorted_wrt post_desc) blocks
         \<and> list_all (sorted_wrt row_before) blocks
         \<and> (\<forall>sched' rows' s2'. main_fetch example_net sched' 0 = (Some (Inr rows'), s2')
               \<longrightarrow> rows' = example_rows))"
proof -
  have a: "main_fetch example_net [0, 0, 0, 1, 1] 0 = (Some (Inr example_rows), 6)"
    by code_simp
  have b: "main_fetch example_net [1, 0, 1, 0, 0] 0 = (Some (Inr example_rows), 6)"
    by code_simp
  have c: "\<forall>t url. unique_ids (fst (example_net t url))"
    by (simp add: example_net_def example_api_def example_users_def unique_ids_def dict_get_def)
  have d: "\<forall>t url. fst (example_net t url) = example_api url"
    by (simp add: example_net_def)
  show ?thesis
    using a b c d output_order[OF a, of example_api] by blast
qed

section \<open>What a run writes\<close>

text \<open>
  Claim C8. Whenever the joined result set is empty (for example, when no user
  qualifies), the run completes without error and performs no file write: an output
  file that was there before is left untouched.
\<close>

theorem empty_result_writes_nothing:
  "main_write [] fs = (Inr (), fs)
   \<and> (main_fetch net sched s = (Some (Inr []), s2) \<longrightarrow> main net sched s fs = (Some (Inr ()), fs))
   \<and> (exec net' get_users t = (Inr [], t1) \<longrightarrow> main net' sched' t fs = (Some (Inr ()), fs))"
proof -
  have "main_write [] fs = (Inr (), fs)" by (simp add: main_write_def)
  moreover have "main net sched s fs = (Some (Inr ()), fs)"
    if "main_fetch net sched s = (Some (Inr []), s2)"
    using that by (simp add: main_def main_write_def)
  moreover have "main net' sched' t fs = (Some (Inr ()), fs)"
    if "exec net' get_users t = (Inr [], t1)"
    using that by (rule main_no_users)
  ultimately show ?thesis by blast
qed

theorem empty_result_writes_nothing_witness:
  "main_write [] old_files = (Inr (), old_files)
   \<and> main_fetch (steady odd_users) [] 0 = (Some (Inr []), 1)
   \<and> main (steady odd_users) [] 0 old_files = (Some (Inr ()), old_files)
   \<and> exec (steady odd_users) get_users 0 = (Inr [], 1)
   \<and> main (steady odd_users) [0, 1] 0 old_files = (Some (Inr ()), old_files)
   \<and> old_files OUTPUT_CSV_PATH = Some [[JStr ''old'']]"
proof -
  have f: "exec (steady odd_users) (fetch_json USERS_URL) 0 = (Inr odd_users, 1)"
    by (rule exec_fetch_ok) (simp add: steady_def)
  have g: "exec (steady odd_users) get_users 0 = (Inr [], 1)"
    using f by (simp add: get_users_def exec_bind odd_users_def dict_get_def)
  have h: "main_fetch (steady odd_users) [] 0 = (Some (Inr []), 1)"
    using g by (simp add: main_fetch_def gather_status_def)
  show ?thesis
    using g h empty_result_writes_nothing[of old_files "steady odd_users" "[]" 0 1
        "steady odd_users" 0 1 "[0, 1]"]
    by (simp add: old_files_def)
qed



text \<open>
  No function of the exception of a fetch gives back the URL of the fetch: on an
  upstream where every attempt times out, the fetch of every URL fails with the same
  exception.
\<close>

lemma fetch_error_forgets_url:
  "\<not> (\<exists>url_of. \<forall>url. url_of (fst (exec failing (fetch_json url) ())) = url)"
proof
  assume "\<exists>url_of. \<forall>url. url_of (fst (exec failing (fetch_json url) ())) = url"
  then obtain url_of :: "py_error + dict list \<Rightarrow> string"
    where u: "\<And>url. url_of (fst (exec failing (fetch_json url) ())) = url" by blast
  have "exec failing (fetch_json url) () = (Inl (RetryError TimeoutError), ())" for url
    by (rule exec_fetch_exhausted) (simp_all add: failing_def)
  then have "url_of (Inl (RetryError TimeoutError)) = url" for url using u[of url] by simp
  from this[of "''a''"] this[of "''b''"] show False by simp
qed


end
